theory Spec2Isabelle
  imports Main "HOL-Library.Word" "HOL-Library.Sublist"
begin

unbundle bit_operations_syntax

section \<open>Data model\<close>

text \<open>
  A JavaScript string is a sequence of 16-bit code units; \<open>split('')\<close>,
  \<open>charCodeAt\<close> and \<open>String.fromCharCode\<close> all work on code units. A typed-array
  element is a byte. A "binary string" of the source is a string over the two characters
  \<open>0\<close> and \<open>1\<close>; it is modelled as a list of booleans (\<open>True\<close> for \<open>1\<close>), first
  character first.
\<close>

type_synonym jsstring = "16 word list"
type_synonym byte = "8 word"
type_synonym bits = "bool list"

text \<open>String literals of the source are ASCII; \<open>ascii\<close> reads one as code units.\<close>

definition ascii :: "string \<Rightarrow> jsstring" where
  "ascii s = map (\<lambda>c. of_nat (of_char c)) s"

text \<open>
  Exceptions. \<open>Error m\<close> is \<open>new Error(m)\<close>; a \<open>DOMException\<close> carries its name
  (\<open>OperationError\<close>, \<open>InvalidCharacterError\<close>); the others are the built-in error
  classes the platform throws. \<open>exnName\<close> is the \<open>name\<close> property.
\<close>

datatype exn = Error string | DOMException string | RangeError | TypeError | SyntaxError

fun exnName :: "exn \<Rightarrow> string" where
  "exnName (Error m) = ''Error''"
| "exnName (DOMException n) = n"
| "exnName RangeError = ''RangeError''"
| "exnName TypeError = ''TypeError''"
| "exnName SyntaxError = ''SyntaxError''"

text \<open>A password argument is optional; \<open>if (password)\<close> is false for \<open>undefined\<close> and for the empty string.\<close>

fun truthyPassword :: "jsstring option \<Rightarrow> jsstring option" where
  "truthyPassword None = None"
| "truthyPassword (Some p) = (if p = [] then None else Some p)"

section \<open>Bitstream framing (steganography.ts, lines 6-20 and 65-67)\<close>

text \<open>\<open>Number.prototype.toString(2)\<close> on a non-negative integer: no leading zeros, \<open>"0"\<close> for zero.\<close>

fun toString2 :: "nat \<Rightarrow> bits" where
  "toString2 n = (if n < 2 then [odd n] else toString2 (n div 2) @ [odd n])"

declare toString2.simps [simp del]

text \<open>\<open>Number.prototype.toString()\<close> (decimal) on a non-negative integer.\<close>

fun toString10 :: "nat \<Rightarrow> string" where
  "toString10 n = (if n < 10 then [char_of (48 + n)]
                   else toString10 (n div 10) @ [char_of (48 + n mod 10)])"

declare toString10.simps [simp del]

text \<open>\<open>parseInt(s, 2)\<close> on a binary string; \<open>None\<close> is \<open>NaN\<close>, the result for the empty string.\<close>

definition parseInt2 :: "bits \<Rightarrow> nat option" where
  "parseInt2 bs = (if bs = [] then None
                   else Some (foldl (\<lambda>acc b. 2 * acc + (if b then 1 else 0)) 0 bs))"

text \<open>\<open>String.fromCharCode(n)\<close>: the code unit \<open>n mod 65536\<close>, and \<open>0\<close> for \<open>NaN\<close>.\<close>

definition fromCharCode :: "nat option \<Rightarrow> 16 word" where
  "fromCharCode v = (case v of None \<Rightarrow> 0 | Some n \<Rightarrow> of_nat n)"

text \<open>\<open>String.prototype.padStart(n, '0')\<close>.\<close>

definition padStart :: "nat \<Rightarrow> bits \<Rightarrow> bits" where
  "padStart n bs = replicate (n - length bs) False @ bs"

text \<open>The body of the \<open>map\<close> in \<open>stringToBinary\<close>: one character to its 16 characters.\<close>

definition charBits :: "16 word \<Rightarrow> bits" where
  "charBits c = (let binary = toString2 (unat c)
                 in replicate (16 - length binary) False @ binary)"

definition stringToBinary :: "jsstring \<Rightarrow> bits" where
  "stringToBinary str = concat (map charBits str)"

function binaryToString :: "bits \<Rightarrow> jsstring" where
  "binaryToString binary =
     (if binary = [] then []
      else fromCharCode (parseInt2 (take 16 binary)) # binaryToString (drop 16 binary))"
  by pat_completeness auto
termination
  by (relation "measure length") auto

declare binaryToString.simps [simp del]

text \<open>
  Lines 65-67 of \<open>encodeImage\<close> and 256-258 of \<open>encodeAudio\<close>: the length of the body as
  a binary string padded to 32 characters, followed by the body.
\<close>

definition frame :: "jsstring \<Rightarrow> bits" where
  "frame finalMessage =
     (let binaryMessage = stringToBinary finalMessage;
          lengthBin = padStart 32 (toString2 (length binaryMessage))
      in lengthBin @ binaryMessage)"

text \<open>The frame format in the words of the specification: big-endian bits of a number.\<close>

definition bigEndian :: "nat \<Rightarrow> nat \<Rightarrow> bits" where
  "bigEndian w n = map (bit n) (rev [0..<w])"

definition frame_spec :: "jsstring \<Rightarrow> bits" where
  "frame_spec text = bigEndian 32 (16 * length text) @ concat (map (\<lambda>c. bigEndian 16 (unat c)) text)"

definition hello :: jsstring where
  "hello = ascii ''hello''"

section \<open>The platform\<close>

text \<open>
  Values \<open>JSON.parse\<close> can return. Numbers are kept as integers: the envelope holds
  integers between 0 and 255 only.
\<close>

datatype json = JNull | JBool bool | JNumber int | JString jsstring
  | JArray "json list" | JObject "(jsstring \<times> json) list"

text \<open>
  What the code takes from its environment: the secure random generator, the text
  codec (\<open>TextEncoder\<close>, \<open>TextDecoder\<close>), the Web Crypto primitives, \<open>JSON.parse\<close>
  (\<open>None\<close> is the \<open>SyntaxError\<close>) and the conversion \<open>new Uint8Array(v)\<close> for a
  value \<open>v\<close> that is not an array of numbers. A primitive that can throw returns a sum.
\<close>

record platform =
  getRandomValues :: "nat \<Rightarrow> byte list"
  textEncode :: "jsstring \<Rightarrow> byte list"
  textDecode :: "byte list \<Rightarrow> jsstring"
  importKey :: "byte list \<Rightarrow> exn + byte list"
  pbkdf2 :: "byte list \<Rightarrow> byte list \<Rightarrow> nat \<Rightarrow> exn + byte list"
  aesGcmEncrypt :: "byte list \<Rightarrow> byte list \<Rightarrow> byte list \<Rightarrow> exn + byte list"
  aesGcmDecrypt :: "byte list \<Rightarrow> byte list \<Rightarrow> byte list \<Rightarrow> exn + byte list"
  jsonParse :: "jsstring \<Rightarrow> json option"
  coerceUint8Array :: "json \<Rightarrow> exn + byte list"

text \<open>Sequencing of steps that can throw: the first exception ends the sequence.\<close>

definition bindE :: "exn + 'a \<Rightarrow> ('a \<Rightarrow> exn + 'b) \<Rightarrow> exn + 'b" where
  "bindE m f = (case m of Inl e \<Rightarrow> Inl e | Inr x \<Rightarrow> f x)"

section \<open>Authenticated encryption (encryption.ts)\<close>

definition ITERATIONS :: nat where "ITERATIONS = 100000"
definition SALT_LENGTH :: nat where "SALT_LENGTH = 16"
definition IV_LENGTH :: nat where "IV_LENGTH = 12"

definition getPasswordKey :: "platform \<Rightarrow> jsstring \<Rightarrow> exn + byte list" where
  "getPasswordKey P password = importKey P (textEncode P password)"

definition deriveKey :: "platform \<Rightarrow> byte list \<Rightarrow> byte list \<Rightarrow> exn + byte list" where
  "deriveKey P passwordKey salt = pbkdf2 P passwordKey salt ITERATIONS"

text \<open>\<open>JSON.stringify\<close> of the bundle \<open>{s, iv, d}\<close> of three arrays of byte values.\<close>

fun joinWith :: "string \<Rightarrow> string list \<Rightarrow> string" where
  "joinWith sep [] = []"
| "joinWith sep [x] = x"
| "joinWith sep (x # y # ys) = x @ sep @ joinWith sep (y # ys)"

definition stringifyArray :: "byte list \<Rightarrow> string" where
  "stringifyArray bs = ''['' @ joinWith '','' (map (\<lambda>b. toString10 (unat b)) bs) @ '']''"

definition quoted :: "string \<Rightarrow> string" where
  "quoted s = [CHR 0x22] @ s @ [CHR 0x22]"

definition stringifyBundle :: "byte list \<Rightarrow> byte list \<Rightarrow> byte list \<Rightarrow> jsstring" where
  "stringifyBundle s iv d =
     ascii (''{'' @ quoted ''s'' @ '':'' @ stringifyArray s @ '','' @
            quoted ''iv'' @ '':'' @ stringifyArray iv @ '','' @
            quoted ''d'' @ '':'' @ stringifyArray d @ ''}'')"

text \<open>The value that text parses to.\<close>

definition bundleJson :: "byte list \<Rightarrow> byte list \<Rightarrow> byte list \<Rightarrow> json" where
  "bundleJson s iv d =
     JObject [(ascii ''s'', JArray (map (\<lambda>b. JNumber (uint b)) s)),
              (ascii ''iv'', JArray (map (\<lambda>b. JNumber (uint b)) iv)),
              (ascii ''d'', JArray (map (\<lambda>b. JNumber (uint b)) d))]"

definition encryptionFailedMsg :: string where
  "encryptionFailedMsg = ''AES-GCM Encryption failed. Check environment security context.''"

definition encryptAttempt :: "platform \<Rightarrow> jsstring \<Rightarrow> jsstring \<Rightarrow> exn + jsstring" where
  "encryptAttempt P message password =
     (let salt = getRandomValues P SALT_LENGTH;
          iv = getRandomValues P IV_LENGTH
      in bindE (getPasswordKey P password) (\<lambda>passwordKey.
         bindE (deriveKey P passwordKey salt) (\<lambda>aesKey.
         bindE (aesGcmEncrypt P aesKey iv (textEncode P message)) (\<lambda>encryptedContent.
         Inr (stringifyBundle salt iv encryptedContent)))))"

definition encryptMessage :: "platform \<Rightarrow> jsstring \<Rightarrow> jsstring \<Rightarrow> exn + jsstring" where
  "encryptMessage P message password =
     (case encryptAttempt P message password of
        Inl error \<Rightarrow> Inl (Error encryptionFailedMsg)
      | Inr text \<Rightarrow> Inr text)"

text \<open>Truthiness of a parsed value, and the property read \<open>bundle.k\<close> (\<open>None\<close> is \<open>undefined\<close>).\<close>

fun truthy :: "json \<Rightarrow> bool" where
  "truthy JNull = False"
| "truthy (JBool b) = b"
| "truthy (JNumber n) = (n \<noteq> 0)"
| "truthy (JString s) = (s \<noteq> [])"
| "truthy (JArray xs) = True"
| "truthy (JObject kvs) = True"

fun getProp :: "json \<Rightarrow> string \<Rightarrow> exn + json option" where
  "getProp JNull k = Inl TypeError"
| "getProp (JObject kvs) k = Inr (map_of kvs (ascii k))"
| "getProp v k = Inr None"

definition falsyProp :: "json option \<Rightarrow> bool" where
  "falsyProp v = (case v of None \<Rightarrow> True | Some x \<Rightarrow> \<not> truthy x)"

fun isNumber :: "json \<Rightarrow> bool" where
  "isNumber (JNumber n) = True"
| "isNumber v = False"

fun toUint8 :: "json \<Rightarrow> byte" where
  "toUint8 (JNumber n) = of_int n"
| "toUint8 v = 0"

text \<open>
  \<open>new Uint8Array(v)\<close> for a property value: \<open>undefined\<close> gives the empty array, an
  array of numbers gives each number modulo 256, anything else is left to the platform.
\<close>

definition newUint8Array :: "platform \<Rightarrow> json option \<Rightarrow> exn + byte list" where
  "newUint8Array P v =
     (case v of
        None \<Rightarrow> Inr []
      | Some (JArray xs) \<Rightarrow>
          if list_all isNumber xs then Inr (map toUint8 xs) else coerceUint8Array P (JArray xs)
      | Some x \<Rightarrow> coerceUint8Array P x)"

definition invalidPayloadMsg :: string where
  "invalidPayloadMsg = ''Invalid payload format. Not an encrypted container.''"

definition corruptedHeaderMsg :: string where
  "corruptedHeaderMsg = ''Corrupted encryption header.''"

definition integrityMsg :: string where
  "integrityMsg = ''INTEGRITY CHECK FAILED: Data has been tampered with (GCM Auth Tag Mismatch).''"

definition decryptionFailedMsg :: string where
  "decryptionFailedMsg = ''Decryption failed. Invalid password or corrupted data.''"

text \<open>The body of the outer \<open>try\<close> of \<open>decryptMessage\<close> (lines 152-179).\<close>

definition decryptAttempt :: "platform \<Rightarrow> jsstring \<Rightarrow> jsstring \<Rightarrow> exn + jsstring" where
  "decryptAttempt P encryptedJson password =
     (case jsonParse P encryptedJson of
        None \<Rightarrow> Inl (Error invalidPayloadMsg)
      | Some bundle \<Rightarrow>
          bindE (getProp bundle ''s'') (\<lambda>s.
          bindE (getProp bundle ''iv'') (\<lambda>iv.
          bindE (getProp bundle ''d'') (\<lambda>d.
            if falsyProp s \<or> falsyProp iv \<or> falsyProp d then Inl (Error corruptedHeaderMsg)
            else
              bindE (newUint8Array P s) (\<lambda>salt.
              bindE (newUint8Array P iv) (\<lambda>iv'.
              bindE (newUint8Array P d) (\<lambda>data.
              bindE (getPasswordKey P password) (\<lambda>passwordKey.
              bindE (deriveKey P passwordKey salt) (\<lambda>aesKey.
              bindE (aesGcmDecrypt P aesKey iv' data) (\<lambda>decryptedContent.
              Inr (textDecode P decryptedContent)))))))))))"

text \<open>The \<open>catch\<close> of \<open>decryptMessage\<close> (lines 180-186).\<close>

definition decryptMessage :: "platform \<Rightarrow> jsstring \<Rightarrow> jsstring \<Rightarrow> exn + jsstring" where
  "decryptMessage P encryptedJson password =
     (case decryptAttempt P encryptedJson password of
        Inr text \<Rightarrow> Inr text
      | Inl error \<Rightarrow>
          if exnName error = ''OperationError'' then Inl (Error integrityMsg)
          else Inl (Error decryptionFailedMsg))"

text \<open>Lines 57-63 of \<open>encodeImage\<close>, 251-254 of \<open>encodeAudio\<close>.\<close>

definition finalMessageFor :: "platform \<Rightarrow> jsstring \<Rightarrow> jsstring option \<Rightarrow> exn + jsstring" where
  "finalMessageFor P message password =
     (case truthyPassword password of
        Some p \<Rightarrow> encryptMessage P message p
      | None \<Rightarrow> Inr message)"

text \<open>Lines 158-160 of \<open>decodeImage\<close>, 315-317 of \<open>decodeAudio\<close>, 55-58 of \<open>decodePdf\<close>.\<close>

definition decryptIfPassword :: "platform \<Rightarrow> jsstring \<Rightarrow> jsstring option \<Rightarrow> exn + jsstring" where
  "decryptIfPassword P decoded password =
     (case truthyPassword password of
        Some p \<Rightarrow> decryptMessage P decoded p
      | None \<Rightarrow> Inr decoded)"

section \<open>Image carrier (steganography.ts, lines 24-222)\<close>

text \<open>
  The carrier is the RGBA byte array \<open>imageData.data\<close> of the canvas the file was drawn
  on; the PNG the canvas emits is taken to give the same bytes back when it is loaded
  and drawn again (a lossless raster). A canvas context is taken to be available.
\<close>

text \<open>\<open>(b & ~1) | bit\<close> and \<open>b & 1\<close>.\<close>

definition setLsb :: "byte \<Rightarrow> bool \<Rightarrow> byte" where
  "setLsb b v = (b AND NOT 1) OR (if v then 1 else 0)"

definition lsb :: "byte \<Rightarrow> bool" where
  "lsb b = (b AND 1 = 1)"

definition capacityExceededMsg :: "nat \<Rightarrow> nat \<Rightarrow> string" where
  "capacityExceededMsg needed allowed =
     ''Capacity exceeded. Payload needs '' @ toString10 needed @
     '' bits, image allows approx '' @ toString10 allowed @ '' bits.''"

definition noValidHeaderMsg :: string where
  "noValidHeaderMsg = ''No valid header found. File may be empty or not processed by this tool.''"

text \<open>The \<open>while\<close> loop of \<open>encodeImage\<close> (lines 76-89).\<close>

function encodeLoop :: "bits \<Rightarrow> byte list \<Rightarrow> nat \<Rightarrow> nat \<Rightarrow> byte list" where
  "encodeLoop fullBinary data dataIndex binIndex =
     (if binIndex < length fullBinary \<and> dataIndex < length data then
        (if (dataIndex + 1) mod 4 = 0 then encodeLoop fullBinary data (dataIndex + 1) binIndex
         else encodeLoop fullBinary
                (data[dataIndex := setLsb (data ! dataIndex) (fullBinary ! binIndex)])
                (dataIndex + 1) (binIndex + 1))
      else data)"
  by pat_completeness auto
termination
  by (relation "measure (\<lambda>(fullBinary, data, dataIndex, binIndex). length data - dataIndex)") auto

declare encodeLoop.simps [simp del]

text \<open>
  \<open>encodeImage\<close>: the first component is the pixel buffer \<open>data\<close> when the call ends,
  the second the outcome, an exception or the pixels of the PNG.
\<close>

definition encodeImage ::
  "platform \<Rightarrow> byte list \<Rightarrow> jsstring \<Rightarrow> jsstring option \<Rightarrow> byte list \<times> (exn + byte list)" where
  "encodeImage P data message password =
     (case finalMessageFor P message password of
        Inl e \<Rightarrow> (data, Inl e)
      | Inr finalMessage \<Rightarrow>
          (let fullBinary = frame finalMessage in
           if 4 * length fullBinary > length data * 3 then
             (data, Inl (Error (capacityExceededMsg (length fullBinary) (length data * 3 div 4))))
           else
             (let data' = encodeLoop fullBinary data 0 0 in (data', Inr data'))))"

text \<open>
  The two \<open>while\<close> loops of \<open>decodeImage\<close> (lines 131-138 and 146-153) have one shape:
  append least-significant bits to a string until it has \<open>n\<close> characters or the data
  ends. The result is the string and the index reached.
\<close>

function readLoop :: "nat \<Rightarrow> byte list \<Rightarrow> nat \<Rightarrow> bits \<Rightarrow> bits \<times> nat" where
  "readLoop n data dataIndex acc =
     (if length acc < n \<and> dataIndex < length data then
        (if (dataIndex + 1) mod 4 = 0 then readLoop n data (dataIndex + 1) acc
         else readLoop n data (dataIndex + 1) (acc @ [lsb (data ! dataIndex)]))
      else (acc, dataIndex))"
  by pat_completeness auto
termination
  by (relation "measure (\<lambda>(n, data, dataIndex, acc). length data - dataIndex)") auto

declare readLoop.simps [simp del]

text \<open>
  \<open>decodeImage\<close>. When the length string is empty \<open>msgLength\<close> is \<open>NaN\<close>: both
  comparisons of the guard are false and the second loop does not run.
\<close>

definition decodeImage :: "platform \<Rightarrow> byte list \<Rightarrow> jsstring option \<Rightarrow> exn + jsstring" where
  "decodeImage P data password =
     (case readLoop 32 data 0 [] of (lengthBin, dataIndex) \<Rightarrow>
        (case parseInt2 lengthBin of
           None \<Rightarrow> decryptIfPassword P (binaryToString []) password
         | Some msgLength \<Rightarrow>
             if msgLength \<le> 0 \<or> msgLength > length data * 8 then Inl (Error noValidHeaderMsg)
             else decryptIfPassword P
                    (binaryToString (fst (readLoop msgLength data dataIndex []))) password))"

text \<open>The \<open>while\<close> loop of \<open>corruptImage\<close> (lines 194-212).\<close>

function corruptLoop :: "byte list \<Rightarrow> nat \<Rightarrow> nat \<Rightarrow> bool \<Rightarrow> byte list" where
  "corruptLoop data i validBytesFound corrupted =
     (if i < length data \<and> \<not> corrupted then
        (if (i + 1) mod 4 = 0 then corruptLoop data (i + 1) validBytesFound corrupted
         else if validBytesFound > 42 then
           corruptLoop (data[i := data ! i XOR 1]) (i + 1) (validBytesFound + 1) True
         else corruptLoop data (i + 1) (validBytesFound + 1) corrupted)
      else data)"
  by pat_completeness auto
termination
  by (relation "measure (\<lambda>(data, i, validBytesFound, corrupted). length data - i)") auto

declare corruptLoop.simps [simp del]

definition corruptImage :: "byte list \<Rightarrow> exn + byte list" where
  "corruptImage data = Inr (corruptLoop data 0 0 False)"

section \<open>Audio carrier (steganography.ts, lines 227-353)\<close>

text \<open>
  The carrier is the byte buffer of the WAV file. The three functions scan the chunk
  headers with the same loop; \<open>findDataChunk\<close> is that loop up to the view
  \<open>new Uint8Array(buffer, offset, chunkSize)\<close> on the \<open>data\<close> chunk. A \<open>DataView\<close> read
  or a view that leaves the buffer throws a \<open>RangeError\<close>; \<open>None\<close> means the loop ended
  without finding the chunk.
\<close>

definition getUint32LE :: "byte list \<Rightarrow> nat \<Rightarrow> nat" where
  "getUint32LE buf offset =
     unat (buf ! offset) + 256 * unat (buf ! (offset + 1)) +
     65536 * unat (buf ! (offset + 2)) + 16777216 * unat (buf ! (offset + 3))"

function findDataChunk :: "byte list \<Rightarrow> nat \<Rightarrow> exn + (nat \<times> nat) option" where
  "findDataChunk buf offset =
     (if offset < length buf then
        (if length buf < offset + 8 then Inl RangeError
         else
           (let chunkId = take 4 (drop offset buf);
                chunkSize = getUint32LE buf (offset + 4)
            in if map ucast chunkId = ascii ''data'' then
                 (if length buf < offset + 8 + chunkSize then Inl RangeError
                  else Inr (Some (offset + 8, chunkSize)))
               else findDataChunk buf (offset + 8 + chunkSize)))
      else Inr None)"
  by pat_completeness auto
termination
  by (relation "measure (\<lambda>(buf, offset). length buf - offset)") auto

declare findDataChunk.simps [simp del]

definition audioCapacityMsg :: string where
  "audioCapacityMsg = ''Capacity Exceeded for Audio LSB''"

definition invalidWavStructureMsg :: string where
  "invalidWavStructureMsg = ''Invalid WAV structure''"

definition noHiddenDataMsg :: string where
  "noHiddenDataMsg = ''No hidden data detected''"

definition invalidWavFileMsg :: string where
  "invalidWavFileMsg = ''Invalid WAV file''"

text \<open>The \<open>for\<close> loop of \<open>encodeAudio\<close> (lines 265-268); \<open>samples[i]\<close> is \<open>buf[offset + i]\<close>.\<close>

definition audioWrite :: "bits \<Rightarrow> nat \<Rightarrow> byte list \<Rightarrow> byte list" where
  "audioWrite fullBinary offset buf =
     fold (\<lambda>i b. b[offset + i := setLsb (b ! (offset + i)) (fullBinary ! i)])
          [0..<length fullBinary] buf"

definition encodeAudio ::
  "platform \<Rightarrow> byte list \<Rightarrow> jsstring \<Rightarrow> jsstring option \<Rightarrow> byte list \<times> (exn + byte list)" where
  "encodeAudio P buf message password =
     (case findDataChunk buf 12 of
        Inl e \<Rightarrow> (buf, Inl e)
      | Inr None \<Rightarrow> (buf, Inl (Error invalidWavStructureMsg))
      | Inr (Some (offset, chunkSize)) \<Rightarrow>
          (case finalMessageFor P message password of
             Inl e \<Rightarrow> (buf, Inl e)
           | Inr finalMessage \<Rightarrow>
               (let fullBinary = frame finalMessage in
                if length fullBinary > chunkSize then (buf, Inl (Error audioCapacityMsg))
                else (let buf' = audioWrite fullBinary offset buf in (buf', Inr buf')))))"

text \<open>
  \<open>samples[i] & 1\<close>: a read past the end of the view is \<open>undefined\<close>, and
  \<open>undefined & 1\<close> is \<open>0\<close>.
\<close>

definition sampleBit :: "byte list \<Rightarrow> nat \<Rightarrow> nat \<Rightarrow> nat \<Rightarrow> bool" where
  "sampleBit buf offset chunkSize i = (if i < chunkSize then lsb (buf ! (offset + i)) else False)"

definition decodeAudio :: "platform \<Rightarrow> byte list \<Rightarrow> jsstring option \<Rightarrow> exn + jsstring" where
  "decodeAudio P buf password =
     (case findDataChunk buf 12 of
        Inl e \<Rightarrow> Inl e
      | Inr None \<Rightarrow> Inl (Error invalidWavFileMsg)
      | Inr (Some (offset, chunkSize)) \<Rightarrow>
          (let lengthBin = map (sampleBit buf offset chunkSize) [0..<32] in
           case parseInt2 lengthBin of
             None \<Rightarrow> decryptIfPassword P (binaryToString []) password
           | Some msgLength \<Rightarrow>
               if msgLength \<le> 0 \<or> msgLength > chunkSize then Inl (Error noHiddenDataMsg)
               else decryptIfPassword P
                      (binaryToString (map (sampleBit buf offset chunkSize) [32..<32 + msgLength]))
                      password))"

definition corruptAudio :: "byte list \<Rightarrow> exn + byte list" where
  "corruptAudio buf =
     (case findDataChunk buf 12 of
        Inl e \<Rightarrow> Inl e
      | Inr None \<Rightarrow> Inl (Error invalidWavStructureMsg)
      | Inr (Some (offset, chunkSize)) \<Rightarrow>
          if chunkSize > 50 then Inr (buf[offset + 40 := buf ! (offset + 40) XOR 1])
          else Inr buf)"

section \<open>PDF carrier (pdfStego.ts, lines 5-84)\<close>

text \<open>
  \<open>btoa\<close> and \<open>atob\<close> are the platform's base64 functions: \<open>btoa\<close> throws an
  \<open>InvalidCharacterError\<close> on a code unit above 255 and otherwise encodes the code units as
  bytes; \<open>atob\<close> is the forgiving decoder (ASCII whitespace removed, padding optional).
\<close>

definition base64Alphabet :: string where
  "base64Alphabet = ''ABCDEFGHIJKLMNOPQRSTUVWXYZabcdefghijklmnopqrstuvwxyz0123456789+/''"

text \<open>Three bytes to four 6-bit values; the value 64 stands for the padding character.\<close>

fun encodeGroups :: "nat list \<Rightarrow> nat list" where
  "encodeGroups (a # b # c # rest) =
     [a div 4, (a mod 4) * 16 + b div 16, (b mod 16) * 4 + c div 64, c mod 64] @ encodeGroups rest"
| "encodeGroups [a, b] = [a div 4, (a mod 4) * 16 + b div 16, (b mod 16) * 4, 64]"
| "encodeGroups [a] = [a div 4, (a mod 4) * 16, 64, 64]"
| "encodeGroups [] = []"

definition base64Char :: "nat \<Rightarrow> char" where
  "base64Char n = (if n < 64 then base64Alphabet ! n else CHR ''='')"

definition btoa :: "jsstring \<Rightarrow> exn + jsstring" where
  "btoa s =
     (if list_ex (\<lambda>c. 255 < unat c) s then Inl (DOMException ''InvalidCharacterError'')
      else Inr (ascii (map base64Char (encodeGroups (map unat s)))))"

definition isAsciiWhitespace :: "16 word \<Rightarrow> bool" where
  "isAsciiWhitespace c = (c = 9 \<or> c = 10 \<or> c = 12 \<or> c = 13 \<or> c = 32)"

definition base64Index :: "16 word \<Rightarrow> nat option" where
  "base64Index c = map_of (zip (ascii base64Alphabet) [0..<64]) c"

definition stripPadding :: "jsstring \<Rightarrow> jsstring" where
  "stripPadding d =
     (if 2 \<le> length d \<and> drop (length d - 2) d = ascii ''=='' then take (length d - 2) d
      else if 1 \<le> length d \<and> drop (length d - 1) d = ascii ''='' then take (length d - 1) d
      else d)"

text \<open>Four 6-bit values to three bytes; a last group of two or three values gives one or two bytes.\<close>

fun decodeGroups :: "nat list \<Rightarrow> nat list" where
  "decodeGroups (a # b # c # d # rest) =
     [a * 4 + b div 16, (b mod 16) * 16 + c div 4, (c mod 4) * 64 + d] @ decodeGroups rest"
| "decodeGroups [a, b, c] = [a * 4 + b div 16, (b mod 16) * 16 + c div 4]"
| "decodeGroups [a, b] = [a * 4 + b div 16]"
| "decodeGroups [a] = []"
| "decodeGroups [] = []"

definition atob :: "jsstring \<Rightarrow> exn + jsstring" where
  "atob data =
     (let d1 = filter (\<lambda>c. \<not> isAsciiWhitespace c) data;
          d2 = (if length d1 mod 4 = 0 then stripPadding d1 else d1)
      in if length d2 mod 4 = 1 then Inl (DOMException ''InvalidCharacterError'')
         else (case those (map base64Index d2) of
                 None \<Rightarrow> Inl (DOMException ''InvalidCharacterError'')
               | Some vs \<Rightarrow> Inr (map of_nat (decodeGroups vs))))"

text \<open>
  \<open>String.prototype.replace\<close> with a string pattern: the first occurrence is replaced.
\<close>

fun replaceFirst :: "jsstring \<Rightarrow> jsstring \<Rightarrow> jsstring \<Rightarrow> jsstring" where
  "replaceFirst pat rep [] = (if pat = [] then rep else [])"
| "replaceFirst pat rep (c # cs) =
     (if prefix pat (c # cs) then rep @ drop (length pat) (c # cs)
      else c # replaceFirst pat rep cs)"

text \<open>
  A loaded PDF document: its Subject entry (\<open>None\<close> when \<open>getSubject()\<close> is \<open>undefined\<close>)
  and the rest of the file. Loading and saving are taken to keep both.
\<close>

record pdfDocument =
  subject :: "jsstring option"
  otherContent :: "byte list"

definition flag :: jsstring where
  "flag = ascii ''STEGAPP_HIDDEN:''"

definition noHiddenMessageMsg :: string where
  "noHiddenMessageMsg = ''No hidden message found in PDF Subject metadata.''"

definition corruptedEncodingMsg :: string where
  "corruptedEncodingMsg = ''Corrupted hidden data encoding.''"

definition encodePdf :: "platform \<Rightarrow> pdfDocument \<Rightarrow> jsstring \<Rightarrow> jsstring option \<Rightarrow> exn + pdfDocument" where
  "encodePdf P pdfDoc message password =
     bindE (case truthyPassword password of
              Some p \<Rightarrow> bindE (encryptMessage P message p) btoa
            | None \<Rightarrow> btoa message)
       (\<lambda>finalMessage. Inr (pdfDoc\<lparr>subject := Some (flag @ finalMessage)\<rparr>))"

definition decodePdf :: "platform \<Rightarrow> pdfDocument \<Rightarrow> jsstring option \<Rightarrow> exn + jsstring" where
  "decodePdf P pdfDoc password =
     (case subject pdfDoc of
        None \<Rightarrow> Inl (Error noHiddenMessageMsg)
      | Some subj \<Rightarrow>
          if subj = [] \<or> \<not> prefix flag subj then Inl (Error noHiddenMessageMsg)
          else
            (let rawData = replaceFirst flag [] subj in
             case atob rawData of
               Inl e \<Rightarrow> Inl (Error corruptedEncodingMsg)
             | Inr decoded \<Rightarrow> decryptIfPassword P decoded password))"

definition corruptPdf :: "pdfDocument \<Rightarrow> exn + pdfDocument" where
  "corruptPdf pdfDoc =
     (case subject pdfDoc of
        None \<Rightarrow> Inr pdfDoc
      | Some subj \<Rightarrow>
          if subj \<noteq> [] \<and> prefix flag subj then
            (let rawData = replaceFirst flag [] subj in
             if length rawData > 10 then
               (let idx = length rawData div 2;
                    char = rawData ! idx;
                    newChar = (if [char] = ascii ''A'' then ascii ''B'' else ascii ''A'');
                    corrupted = take idx rawData @ newChar @ drop (idx + 1) rawData
                in Inr (pdfDoc\<lparr>subject := Some (flag @ corrupted)\<rparr>))
             else Inr pdfDoc)
          else Inr pdfDoc)"

section \<open>Notions of the specification\<close>

text \<open>
  The slot sequence of an image from index \<open>i\<close> on: the channel bytes with every fourth
  byte (the alpha channel) left out.
\<close>

definition slotsFrom :: "nat \<Rightarrow> byte list \<Rightarrow> byte list" where
  "slotsFrom i data = map (nth data) (filter (\<lambda>j. (j + 1) mod 4 \<noteq> 0) [i..<length data])"

definition slots :: "byte list \<Rightarrow> byte list" where
  "slots data = slotsFrom 0 data"

text \<open>Flipping the least-significant bit of one byte of a buffer.\<close>

definition flipLsbAt :: "nat \<Rightarrow> byte list \<Rightarrow> byte list" where
  "flipLsbAt i buf = buf[i := buf ! i XOR 1]"

text \<open>
  The contract of the platform for one message and password: key derivation and
  encryption succeed, decryption with the same key and nonce gives the plaintext back,
  the text codec and \<open>JSON.parse\<close> invert \<open>TextEncoder\<close> and \<open>JSON.stringify\<close> on the
  values of this call.
\<close>

definition platformRoundTrip :: "platform \<Rightarrow> jsstring \<Rightarrow> jsstring \<Rightarrow> bool" where
  "platformRoundTrip P message p =
     (let salt = getRandomValues P SALT_LENGTH;
          iv = getRandomValues P IV_LENGTH
      in case importKey P (textEncode P p) of
           Inl e \<Rightarrow> False
         | Inr passwordKey \<Rightarrow>
             (case pbkdf2 P passwordKey salt ITERATIONS of
                Inl e \<Rightarrow> False
              | Inr aesKey \<Rightarrow>
                  (case aesGcmEncrypt P aesKey iv (textEncode P message) of
                     Inl e \<Rightarrow> False
                   | Inr d \<Rightarrow>
                       aesGcmDecrypt P aesKey iv d = Inr (textEncode P message) \<and>
                       textDecode P (textEncode P message) = message \<and>
                       jsonParse P (stringifyBundle salt iv d) = Some (bundleJson salt iv d))))"


section \<open>Example inputs\<close>

text \<open>
  A stand-in platform for the examples: fixed "random" bytes, a text codec that is right
  on ASCII, a toy cipher that appends a 16-byte tag made from key and nonce, and a
  \<open>JSON.parse\<close> given by a table of the texts the examples use.
\<close>

definition demoTag :: "byte list \<Rightarrow> byte list \<Rightarrow> byte list" where
  "demoTag k iv = take 16 (k @ iv @ replicate 16 0)"

definition demoSalt :: "byte list" where
  "demoSalt = map of_nat [1..<17]"

definition demoIv :: "byte list" where
  "demoIv = map of_nat [1..<13]"

definition demoPassword :: jsstring where
  "demoPassword = ascii ''pw''"

definition demoKey :: "byte list" where
  "demoKey = map ucast demoPassword @ demoSalt"

definition demoCipher :: "byte list" where
  "demoCipher = map ucast hello @ demoTag demoKey demoIv"

definition demoEnvelope :: jsstring where
  "demoEnvelope = stringifyBundle demoSalt demoIv demoCipher"

definition demoPlatform :: platform where
  "demoPlatform =
     \<lparr> getRandomValues = (\<lambda>n. map of_nat [1..<Suc n]),
       textEncode = map ucast,
       textDecode = map ucast,
       importKey = Inr,
       pbkdf2 = (\<lambda>k salt n. Inr (k @ salt)),
       aesGcmEncrypt = (\<lambda>k iv plaintext. Inr (plaintext @ demoTag k iv)),
       aesGcmDecrypt = (\<lambda>k iv d.
         if 16 \<le> length d \<and> drop (length d - 16) d = demoTag k iv
         then Inr (take (length d - 16) d)
         else Inl (DOMException ''OperationError'')),
       jsonParse = map_of
         [(demoEnvelope, bundleJson demoSalt demoIv demoCipher),
          (ascii ''{}'', JObject []),
          (ascii ''null'', JNull)],
       coerceUint8Array = (\<lambda>v. Inl TypeError) \<rparr>"

text \<open>
  A 4 by 3 image (48 channel bytes, 36 slots) whose first 32 slots spell the length 16:
  slot 27 is byte 36.
\<close>

definition shortImage :: "byte list" where
  "shortImage = (replicate 48 0)[36 := 1]"

text \<open>A WAV buffer: the 12-byte outer header, then one \<open>data\<close> chunk of \<open>n\<close> zero bytes (\<open>n < 256\<close>).\<close>

definition demoWav :: "nat \<Rightarrow> byte list" where
  "demoWav n = replicate 12 0 @ [100, 97, 116, 97] @ [of_nat n, 0, 0, 0] @ replicate n 0"

definition demoPdf :: pdfDocument where
  "demoPdf = \<lparr> subject = None, otherContent = [] \<rparr>"

text \<open>
  A WAV buffer with a \<open>data\<close> chunk of 48 bytes whose first 32 bytes spell the length 48
  (bits 26 and 27 of the header, bytes 46 and 47 of the buffer).
\<close>

definition overlongWav :: "byte list" where
  "overlongWav = (demoWav 48)[46 := 1, 47 := 1]"

text \<open>The base64 values of a byte sequence without the padding, and the number of padding characters.\<close>

fun payloadGroups :: "nat list \<Rightarrow> nat list" where
  "payloadGroups (a # b # c # rest) =
     [a div 4, (a mod 4) * 16 + b div 16, (b mod 16) * 4 + c div 64, c mod 64] @ payloadGroups rest"
| "payloadGroups [a, b] = [a div 4, (a mod 4) * 16 + b div 16, (b mod 16) * 4]"
| "payloadGroups [a] = [a div 4, (a mod 4) * 16]"
| "payloadGroups [] = []"

fun padCount :: "nat list \<Rightarrow> nat" where
  "padCount (a # b # c # rest) = padCount rest"
| "padCount [a, b] = 1"
| "padCount [a] = 2"
| "padCount [] = 0"

text \<open>The number of colour bytes before channel byte \<open>i\<close>: the slot a colour byte \<open>i\<close> holds.\<close>

definition slotNumber :: "nat \<Rightarrow> nat" where
  "slotNumber i = i - i div 4"

text \<open>
  The artifact of encoding the one-character message \<open>a\<close> without a password into a WAV
  buffer whose \<open>data\<close> chunk has 48 bytes, exactly the 48 bits of the frame.
\<close>

definition smallArtifact :: "byte list" where
  "smallArtifact = fst (encodeAudio demoPlatform (demoWav 48) (ascii ''a'') None)"

text \<open>A PDF artifact whose Subject holds the base64 text of \<open>hello world\<close>.\<close>

definition demoArtifactPdf :: pdfDocument where
  "demoArtifactPdf = \<lparr> subject = Some (flag @ ascii ''aGVsbG8gd29ybGQ=''), otherContent = [] \<rparr>"

section \<open>Properties of the framing\<close>

lemma toString2_nonempty: "toString2 n \<noteq> []"
  by (subst toString2.simps) simp

lemma toString2_small: "n < 2 \<Longrightarrow> toString2 n = [odd n]"
  by (subst toString2.simps) simp

lemma toString2_large: "\<not> n < 2 \<Longrightarrow> toString2 n = toString2 (n div 2) @ [odd n]"
  by (subst toString2.simps) simp

lemma foldl_toString2:
  "foldl (\<lambda>acc b. 2 * acc + (if b then 1 else 0)) 0 (toString2 n) = n"
proof (induction n rule: toString2.induct)
  case (1 n)
  show ?case
  proof (cases "n < 2")
    case True
    then have "n = 0 \<or> n = 1" by arith
    then show ?thesis by (auto simp: toString2_small)
  next
    case False
    with 1 show ?thesis by (auto simp: toString2_large)
  qed
qed

lemma foldl_leading_zeros:
  "foldl (\<lambda>acc b. 2 * acc + (if b then 1 else 0)) (0::nat) (replicate k False @ bs)
     = foldl (\<lambda>acc b. 2 * acc + (if b then 1 else 0)) 0 bs"
  by (induction k) simp_all

lemma parseInt2_padded: "parseInt2 (replicate k False @ toString2 n) = Some n"
  using foldl_leading_zeros [of k "toString2 n"]
  by (simp add: parseInt2_def toString2_nonempty foldl_toString2 del: foldl_append)

lemma length_toString2: "0 < w \<Longrightarrow> n < 2 ^ w \<Longrightarrow> length (toString2 n) \<le> w"
proof (induction n arbitrary: w rule: toString2.induct)
  case (1 n)
  show ?case
  proof (cases "n < 2")
    case True
    with 1 show ?thesis by (simp add: toString2_small)
  next
    case False
    from False "1.prems" have w: "1 < w" by (cases "w = 1") auto
    then obtain v where v: "w = Suc v" "0 < v" by (cases w) auto
    with "1.prems" have "n div 2 < 2 ^ v" by auto
    with 1(1)[OF False v(2)] have "length (toString2 (n div 2)) \<le> v" by simp
    with False v show ?thesis by (simp add: toString2_large)
  qed
qed

lemma bigEndian_Suc: "bigEndian (Suc w) n = bigEndian w (n div 2) @ [odd n]"
proof -
  have "map (bit n) (rev [0..<Suc w]) = map (bit n) (rev (map Suc [0..<w])) @ [bit n 0]"
    by (simp only: upt_conv_Cons [of 0 "Suc w"] map_Suc_upt [symmetric]) simp
  also have "map (bit n) (rev (map Suc [0..<w])) = map (bit (n div 2)) (rev [0..<w])"
    by (simp add: rev_map bit_Suc)
  finally show ?thesis by (simp add: bigEndian_def bit_0)
qed

lemma bigEndian_zero: "bigEndian w 0 = replicate w False"
  by (induction w) (simp_all add: bigEndian_Suc replicate_append_same, simp add: bigEndian_def)

lemma padStart_snoc: "padStart (Suc v) (xs @ [b]) = padStart v xs @ [b]"
  by (simp add: padStart_def)

lemma padStart_toString2:
  "0 < w \<Longrightarrow> n < 2 ^ w \<Longrightarrow> padStart w (toString2 n) = bigEndian w n"
proof (induction n arbitrary: w rule: toString2.induct)
  case (1 n)
  from "1.prems" obtain v where v: "w = Suc v" by (cases w) auto
  show ?case
  proof (cases "n < 2")
    case True
    then have "n div 2 = 0" by simp
    with True v show ?thesis
      by (simp add: toString2_small padStart_def bigEndian_Suc bigEndian_zero)
  next
    case False
    with "1.prems" v have "0 < v" by (cases "v = 0") auto
    moreover from "1.prems" v have "n div 2 < 2 ^ v" by auto
    ultimately have "padStart v (toString2 (n div 2)) = bigEndian v (n div 2)"
      using 1(1) False by blast
    with False v show ?thesis by (simp add: toString2_large padStart_snoc bigEndian_Suc)
  qed
qed

lemma length_bigEndian: "length (bigEndian w n) = w"
  by (simp add: bigEndian_def)

lemma unat_char_bound: "unat (c :: 16 word) < 2 ^ 16"
  using unsigned_less [of c] by simp

lemma charBits_bigEndian: "charBits c = bigEndian 16 (unat c)"
  using padStart_toString2 [of 16 "unat c"] unat_char_bound [of c]
  by (simp add: charBits_def padStart_def Let_def)

lemma length_charBits: "length (charBits c) = 16"
  by (simp add: charBits_bigEndian length_bigEndian)

lemma parseInt2_charBits: "parseInt2 (charBits c) = Some (unat c)"
  by (simp add: charBits_def Let_def parseInt2_padded)

lemma length_stringToBinary: "length (stringToBinary str) = 16 * length str"
  by (induction str) (simp_all add: stringToBinary_def length_charBits)

lemma stringToBinary_Cons: "stringToBinary (c # cs) = charBits c @ stringToBinary cs"
  by (simp add: stringToBinary_def)

lemma binaryToString_stringToBinary: "binaryToString (stringToBinary str) = str"
proof (induction str)
  case Nil
  show ?case by (subst binaryToString.simps) (simp add: stringToBinary_def)
next
  case (Cons c cs)
  have "length (charBits c) \<noteq> 0"
    by (simp add: length_charBits)
  then have ne: "charBits c \<noteq> []"
    by auto
  show ?case
    unfolding stringToBinary_Cons
    by (subst binaryToString.simps)
       (simp add: ne length_charBits parseInt2_charBits fromCharCode_def Cons.IH)
qed

lemma frame_eq_spec:
  assumes "16 * length text < 2 ^ 32"
  shows "frame text = frame_spec text"
proof -
  have "padStart 32 (toString2 (16 * length text)) = bigEndian 32 (16 * length text)"
    using assms by (intro padStart_toString2) simp_all
  moreover have "charBits = (\<lambda>c. bigEndian 16 (unat c))"
    by (rule ext) (rule charBits_bigEndian)
  then have "stringToBinary text = concat (map (\<lambda>c. bigEndian 16 (unat c)) text)"
    by (simp add: stringToBinary_def)
  moreover have "frame text = padStart 32 (toString2 (16 * length text)) @ stringToBinary text"
    by (simp add: frame_def Let_def length_stringToBinary)
  ultimately show ?thesis
    by (simp add: frame_spec_def)
qed

lemma frame_parts:
  assumes "16 * length text < 2 ^ 32"
  shows "take 32 (frame text) = padStart 32 (toString2 (16 * length text))"
    and "drop 32 (frame text) = stringToBinary text"
    and "length (frame text) = 32 + 16 * length text"
    and "parseInt2 (take 32 (frame text)) = Some (16 * length text)"
proof -
  have len: "length (padStart 32 (toString2 (16 * length text))) = 32"
    using padStart_toString2 [of 32 "16 * length text"] assms
    by (simp add: length_bigEndian)
  show "take 32 (frame text) = padStart 32 (toString2 (16 * length text))"
    using len by (simp add: frame_def Let_def length_stringToBinary)
  then show "parseInt2 (take 32 (frame text)) = Some (16 * length text)"
    by (simp add: padStart_def parseInt2_padded)
  show "drop 32 (frame text) = stringToBinary text"
    using len by (simp add: frame_def Let_def length_stringToBinary)
  show "length (frame text) = 32 + 16 * length text"
    using len by (simp add: frame_def Let_def length_stringToBinary)
qed

lemma length_frame_ge: "32 + 16 * length text \<le> length (frame text)"
  by (simp add: frame_def Let_def length_stringToBinary padStart_def)

lemma hello_chars: "hello = [0x68, 0x65, 0x6C, 0x6C, 0x6F]"
  by (simp add: hello_def ascii_def)

text \<open>
  C6. Each character becomes exactly 16 big-endian bits, the bodies are concatenated and
  a 32-bit big-endian count of the body bits is put in front (for a body shorter than
  \<open>2 ^ 32\<close> bits, which every JavaScript string gives); the frame of \<open>"hello"\<close> has
  exactly 112 bits, its header reads 80, and its body decodes to \<open>"hello"\<close>.
\<close>

theorem frame_format:
  "(16 * length str < 2 ^ 32 \<longrightarrow> frame str = frame_spec str) \<and>
   length (frame hello) = 112 \<and>
   parseInt2 (take 32 (frame hello)) = Some 80 \<and>
   binaryToString (drop 32 (frame hello)) = hello"
proof -
  have h: "16 * length hello < (2::nat) ^ 32" by (simp add: hello_chars)
  show ?thesis
    using frame_parts [OF h] frame_eq_spec [of str]
    by (simp add: binaryToString_stringToBinary) (simp add: hello_chars)
qed

theorem frame_format_witness:
  "frame hello = frame_spec hello \<and> length (frame hello) = 112"
proof -
  have h: "16 * length hello < (2::nat) ^ 32" by (simp add: hello_chars)
  from frame_format [of hello] h show ?thesis by blast
qed

section \<open>Properties of the image carrier\<close>

lemma lsb_odd: "lsb b = odd b"
  by (simp add: lsb_def and_one_eq mod_2_eq_odd of_bool_def)

lemma lsb_setLsb: "lsb (setLsb b v) = v"
  by (simp add: lsb_odd setLsb_def bit_0 [symmetric] bit_simps)

lemma bit_Suc_setLsb: "bit (setLsb b v) (Suc n) = bit b (Suc n)"
  by (auto simp: setLsb_def bit_or_iff bit_and_iff bit_not_iff bit_1_iff dest: bit_imp_le_length)

lemma high_bits_setLsb: "drop_bit 1 (setLsb b v) = drop_bit 1 b"
  by (rule bit_eqI) (simp add: bit_drop_bit_eq bit_Suc_setLsb)

lemma setLsb_setLsb: "setLsb (setLsb b v) w = setLsb b w"
proof (rule bit_eqI)
  fix n
  show "bit (setLsb (setLsb b v) w) n = bit (setLsb b w) n"
  proof (cases n)
    case 0
    then show ?thesis using lsb_setLsb by (simp add: bit_0 lsb_odd)
  next
    case (Suc m)
    then show ?thesis by (simp add: bit_Suc_setLsb)
  qed
qed

lemma lsb_flip: "lsb (b XOR 1) = (\<not> lsb b)"
  by (simp add: lsb_odd even_xor_iff)

lemma high_bits_flip: "drop_bit 1 (b XOR 1) = drop_bit 1 (b :: byte)"
  by (rule bit_eqI) (simp add: bit_drop_bit_eq bit_xor_iff bit_1_iff)

lemma flip_neq: "b XOR 1 \<noteq> (b :: byte)"
  by (metis lsb_flip)

subsection \<open>The slot sequence\<close>

lemma slotsFrom_end: "length data \<le> i \<Longrightarrow> slotsFrom i data = []"
  by (simp add: slotsFrom_def)

lemma slotsFrom_alpha:
  "i < length data \<Longrightarrow> (i + 1) mod 4 = 0 \<Longrightarrow> slotsFrom i data = slotsFrom (i + 1) data"
  by (simp add: slotsFrom_def upt_conv_Cons)

lemma slotsFrom_colour:
  "i < length data \<Longrightarrow> (i + 1) mod 4 \<noteq> 0 \<Longrightarrow>
   slotsFrom i data = data ! i # slotsFrom (i + 1) data"
  by (simp add: slotsFrom_def upt_conv_Cons)

lemma length_slotsFrom_cong:
  "length data' = length data \<Longrightarrow> length (slotsFrom i data') = length (slotsFrom i data)"
  by (simp add: slotsFrom_def)

lemma colour_count_Suc:
  "Suc n - Suc n div 4 = (n - n div 4) + (if Suc n mod 4 = 0 then 0 else 1)"
  using div_le_dividend [of n 4] by (simp add: div_Suc Suc_diff_le del: div_le_dividend)

lemma colour_count_mono: "i \<le> n \<Longrightarrow> i - i div 4 \<le> n - n div (4::nat)"
  by arith

lemma length_filter_colour:
  "i \<le> n \<Longrightarrow> length (filter (\<lambda>j. (j + 1) mod 4 \<noteq> 0) [i..<n]) = (n - n div 4) - (i - i div 4)"
proof (induction n)
  case 0
  then show ?case by simp
next
  case (Suc n)
  show ?case
  proof (cases "i = Suc n")
    case True
    then show ?thesis by simp
  next
    case False
    with Suc.prems have le: "i \<le> n" by simp
    with Suc.IH have IH: "length (filter (\<lambda>j. (j + 1) mod 4 \<noteq> 0) [i..<n]) = (n - n div 4) - (i - i div 4)"
      by simp
    have "length (filter (\<lambda>j. (j + 1) mod 4 \<noteq> 0) [i..<Suc n]) =
          length (filter (\<lambda>j. (j + 1) mod 4 \<noteq> 0) [i..<n]) + (if Suc n mod 4 = 0 then 0 else 1)"
      using le by simp
    also have "\<dots> = ((n - n div 4) + (if Suc n mod 4 = 0 then 0 else 1)) - (i - i div 4)"
    proof -
      define a b c :: nat where "a = n - n div 4" and "b = i - i div 4"
        and "c = (if Suc n mod 4 = 0 then 0 else 1)"
      have "b \<le> a" using colour_count_mono [OF le] by (simp add: a_def b_def)
      then have "a - b + c = a + c - b" by simp
      then show ?thesis unfolding IH a_def b_def c_def .
    qed
    finally show ?thesis by (simp only: colour_count_Suc)
  qed
qed

lemma length_slots: "length (slots data) = length data - length data div 4"
  using length_filter_colour [of 0 "length data"] by (simp add: slots_def slotsFrom_def)

lemma capacity_slots: "4 * n \<le> length data * 3 \<Longrightarrow> n \<le> length (slots data)"
  by (simp add: length_slots)

subsection \<open>Reading\<close>

lemma readLoop_stop:
  "\<not> (length acc < n \<and> i < length data) \<Longrightarrow> readLoop n data i acc = (acc, i)"
  by (subst readLoop.simps) (simp only: if_False)

lemma readLoop_alpha:
  "length acc < n \<Longrightarrow> i < length data \<Longrightarrow> (i + 1) mod 4 = 0 \<Longrightarrow>
   readLoop n data i acc = readLoop n data (i + 1) acc"
  by (subst readLoop.simps) simp

lemma readLoop_colour:
  "length acc < n \<Longrightarrow> i < length data \<Longrightarrow> (i + 1) mod 4 \<noteq> 0 \<Longrightarrow>
   readLoop n data i acc = readLoop n data (i + 1) (acc @ [lsb (data ! i)])"
  by (subst readLoop.simps) simp

lemma readLoop_slots:
  "fst (readLoop n data i acc) = acc @ take (n - length acc) (map lsb (slotsFrom i data))"
proof (induction n data i acc rule: readLoop.induct)
  case (1 n data i acc)
  show ?case
  proof (cases "length acc < n \<and> i < length data")
    case False
    then show ?thesis
      by (auto simp: readLoop_stop slotsFrom_end)
  next
    case True
    show ?thesis
    proof (cases "(i + 1) mod 4 = 0")
      case alpha: True
      with True 1(1) show ?thesis
        by (simp add: readLoop_alpha slotsFrom_alpha)
    next
      case colour: False
      from True obtain m where m: "n - length acc = Suc m" by (cases "n - length acc") auto
      then have "n - Suc (length acc) = m" by simp
      with True colour 1(2) m show ?thesis
        by (simp add: readLoop_colour slotsFrom_colour)
    qed
  qed
qed

lemma readLoop_rest:
  "slotsFrom (snd (readLoop n data i acc)) data = drop (n - length acc) (slotsFrom i data)"
proof (induction n data i acc rule: readLoop.induct)
  case (1 n data i acc)
  show ?case
  proof (cases "length acc < n \<and> i < length data")
    case False
    then show ?thesis
      by (auto simp: readLoop_stop slotsFrom_end)
  next
    case True
    show ?thesis
    proof (cases "(i + 1) mod 4 = 0")
      case alpha: True
      with True 1(1) show ?thesis
        by (simp add: readLoop_alpha slotsFrom_alpha)
    next
      case colour: False
      from True obtain m where m: "n - length acc = Suc m" by (cases "n - length acc") auto
      then have "n - Suc (length acc) = m" by simp
      with True colour 1(2) m show ?thesis
        by (simp add: readLoop_colour slotsFrom_colour)
    qed
  qed
qed

subsection \<open>Writing\<close>

lemma encodeLoop_stop:
  "\<not> (k < length full \<and> i < length data) \<Longrightarrow> encodeLoop full data i k = data"
  by (subst encodeLoop.simps) (simp only: if_False)

lemma encodeLoop_alpha:
  "k < length full \<Longrightarrow> i < length data \<Longrightarrow> (i + 1) mod 4 = 0 \<Longrightarrow>
   encodeLoop full data i k = encodeLoop full data (i + 1) k"
  by (subst encodeLoop.simps) simp

lemma encodeLoop_colour:
  "k < length full \<Longrightarrow> i < length data \<Longrightarrow> (i + 1) mod 4 \<noteq> 0 \<Longrightarrow>
   encodeLoop full data i k =
     encodeLoop full (data[i := setLsb (data ! i) (full ! k)]) (i + 1) (k + 1)"
  by (subst encodeLoop.simps) simp

lemma length_encodeLoop: "length (encodeLoop full data i k) = length data"
proof (induction full data i k rule: encodeLoop.induct)
  case (1 full data i k)
  show ?case
  proof (cases "k < length full \<and> i < length data")
    case False
    then show ?thesis by (simp add: encodeLoop_stop)
  next
    case True
    with 1 show ?thesis
      by (cases "(i + 1) mod 4 = 0") (simp_all add: encodeLoop_alpha encodeLoop_colour)
  qed
qed

lemma encodeLoop_below: "j < i \<Longrightarrow> encodeLoop full data i k ! j = data ! j"
proof (induction full data i k rule: encodeLoop.induct)
  case (1 full data i k)
  show ?case
  proof (cases "k < length full \<and> i < length data")
    case False
    then show ?thesis by (simp add: encodeLoop_stop)
  next
    case True
    with 1 show ?thesis
      by (cases "(i + 1) mod 4 = 0") (simp_all add: encodeLoop_alpha encodeLoop_colour)
  qed
qed

text \<open>Every byte keeps its value or gets a new least-significant bit, and then it is a colour byte.\<close>

lemma encodeLoop_pointwise:
  "j < length data \<Longrightarrow>
   encodeLoop full data i k ! j = data ! j \<or>
   ((j + 1) mod 4 \<noteq> 0 \<and> (\<exists>v. encodeLoop full data i k ! j = setLsb (data ! j) v))"
proof (induction full data i k rule: encodeLoop.induct)
  case (1 full data i k)
  show ?case
  proof (cases "k < length full \<and> i < length data")
    case False
    then show ?thesis by (simp add: encodeLoop_stop)
  next
    case True
    show ?thesis
    proof (cases "(i + 1) mod 4 = 0")
      case alpha: True
      with True 1(1) "1.prems" show ?thesis by (simp add: encodeLoop_alpha)
    next
      case colour: False
      let ?data' = "data[i := setLsb (data ! i) (full ! k)]"
      have eq: "encodeLoop full data i k = encodeLoop full ?data' (i + 1) (k + 1)"
        using True colour by (simp add: encodeLoop_colour)
      have IH: "encodeLoop full ?data' (i + 1) (k + 1) ! j = ?data' ! j \<or>
          ((j + 1) mod 4 \<noteq> 0 \<and>
           (\<exists>v. encodeLoop full ?data' (i + 1) (k + 1) ! j = setLsb (?data' ! j) v))"
        using 1(2) True colour "1.prems" by simp
      show ?thesis
      proof (cases "j = i")
        case False
        with IH eq show ?thesis by simp
      next
        case same: True
        with IH eq True colour show ?thesis by (auto simp: setLsb_setLsb)
      qed
    qed
  qed
qed

lemma encodeLoop_read:
  "k \<le> length full \<Longrightarrow> length full - k \<le> length (slotsFrom i data) \<Longrightarrow>
   take (length full - k) (map lsb (slotsFrom i (encodeLoop full data i k))) = drop k full"
proof (induction full data i k rule: encodeLoop.induct)
  case (1 full data i k)
  show ?case
  proof (cases "k < length full \<and> i < length data")
    case False
    with "1.prems" show ?thesis by (auto simp: slotsFrom_end)
  next
    case True
    show ?thesis
    proof (cases "(i + 1) mod 4 = 0")
      case alpha: True
      with True 1(1) "1.prems" show ?thesis
        by (simp add: encodeLoop_alpha slotsFrom_alpha length_encodeLoop)
    next
      case colour: False
      let ?data' = "data[i := setLsb (data ! i) (full ! k)]"
      let ?D = "encodeLoop full ?data' (i + 1) (k + 1)"
      have eq: "encodeLoop full data i k = ?D"
        using True colour by (simp add: encodeLoop_colour)
      have len: "length (slotsFrom (i + 1) ?data') = length (slotsFrom (i + 1) data)"
        by (rule length_slotsFrom_cong) simp
      from True colour "1.prems" have "length full - (k + 1) \<le> length (slotsFrom (i + 1) data)"
        by (simp add: slotsFrom_colour)
      with len True colour 1(2)
      have IH: "take (length full - (k + 1)) (map lsb (slotsFrom (i + 1) ?D)) = drop (k + 1) full"
        by simp
      have "?D ! i = setLsb (data ! i) (full ! k)"
        using True by (simp add: encodeLoop_below)
      moreover have "slotsFrom i ?D = ?D ! i # slotsFrom (i + 1) ?D"
        using True colour by (simp add: slotsFrom_colour length_encodeLoop)
      moreover from True obtain m where m: "length full - k = Suc m"
        by (cases "length full - k") auto
      moreover from m have "length full - (k + 1) = m" by simp
      ultimately show ?thesis
        using IH True by (simp add: eq lsb_setLsb Cons_nth_drop_Suc)
    qed
  qed
qed

section \<open>Properties of the audio carrier\<close>

lemma findDataChunk_end: "length buf \<le> offset \<Longrightarrow> findDataChunk buf offset = Inr None"
  by (subst findDataChunk.simps) simp

lemma findDataChunk_short:
  "offset < length buf \<Longrightarrow> length buf < offset + 8 \<Longrightarrow> findDataChunk buf offset = Inl RangeError"
  by (subst findDataChunk.simps) simp

lemma findDataChunk_data:
  "offset + 8 \<le> length buf \<Longrightarrow> map ucast (take 4 (drop offset buf)) = ascii ''data'' \<Longrightarrow>
   findDataChunk buf offset =
     (if length buf < offset + 8 + getUint32LE buf (offset + 4) then Inl RangeError
      else Inr (Some (offset + 8, getUint32LE buf (offset + 4))))"
  by (subst findDataChunk.simps) (simp add: Let_def)

lemma findDataChunk_skip:
  "offset + 8 \<le> length buf \<Longrightarrow> map ucast (take 4 (drop offset buf)) \<noteq> ascii ''data'' \<Longrightarrow>
   findDataChunk buf offset = findDataChunk buf (offset + 8 + getUint32LE buf (offset + 4))"
  by (subst findDataChunk.simps) (simp add: Let_def)

lemma findDataChunk_bounds:
  "findDataChunk buf offset = Inr (Some (start, chunkSize)) \<Longrightarrow>
   offset + 8 \<le> start \<and> start + chunkSize \<le> length buf"
proof (induction buf offset rule: findDataChunk.induct)
  case (1 buf offset)
  show ?case
  proof (cases "offset + 8 \<le> length buf")
    case False
    with "1.prems" show ?thesis
      by (cases "offset < length buf") (simp_all add: findDataChunk_short findDataChunk_end)
  next
    case True
    show ?thesis
    proof (cases "map ucast (take 4 (drop offset buf)) = ascii ''data''")
      case data: True
      with True "1.prems" show ?thesis
        by (simp add: findDataChunk_data split: if_splits)
    next
      case other: False
      with True "1.prems"
      have "findDataChunk buf (offset + 8 + getUint32LE buf (offset + 4)) = Inr (Some (start, chunkSize))"
        by (simp add: findDataChunk_skip)
      with 1(1) True other
      have "offset + 8 + getUint32LE buf (offset + 4) + 8 \<le> start \<and> start + chunkSize \<le> length buf"
        by simp
      then show ?thesis by simp
    qed
  qed
qed

text \<open>The scan reads only the bytes before the start of the \<open>data\<close> chunk.\<close>

lemma findDataChunk_cong:
  assumes "findDataChunk buf offset = Inr (Some (start, chunkSize))"
    and "length buf' = length buf"
    and "\<forall>j < start. buf' ! j = buf ! j"
  shows "findDataChunk buf' offset = Inr (Some (start, chunkSize))"
  using assms
proof (induction buf offset rule: findDataChunk.induct)
  case (1 buf offset)
  from findDataChunk_bounds [OF "1.prems"(1)]
  have bounds: "offset + 8 \<le> start" "start + chunkSize \<le> length buf" by simp_all
  then have inside: "offset + 8 \<le> length buf" by simp
  have same: "\<And>j. j < offset + 8 \<Longrightarrow> buf' ! j = buf ! j"
    using "1.prems"(3) bounds by simp
  have id: "take 4 (drop offset buf') = take 4 (drop offset buf)"
    using inside "1.prems"(2) same by (intro nth_equalityI) simp_all
  have size: "getUint32LE buf' (offset + 4) = getUint32LE buf (offset + 4)"
    using same by (simp add: getUint32LE_def)
  show ?case
  proof (cases "map ucast (take 4 (drop offset buf)) = ascii ''data''")
    case True
    with "1.prems" inside id size show ?thesis
      by (simp add: findDataChunk_data split: if_splits)
  next
    case False
    with "1.prems"(1) inside
    have next_chunk: "findDataChunk buf (offset + 8 + getUint32LE buf (offset + 4)) = Inr (Some (start, chunkSize))"
      by (simp add: findDataChunk_skip)
    have "findDataChunk buf' (offset + 8 + getUint32LE buf (offset + 4)) = Inr (Some (start, chunkSize))"
      using 1(1) inside False next_chunk "1.prems"(2,3) by simp
    with False inside id size "1.prems"(2) show ?thesis
      by (simp add: findDataChunk_skip)
  qed
qed

lemma audioWrite_steps:
  "n \<le> length full \<Longrightarrow> offset + n \<le> length buf \<Longrightarrow>
   length (fold (\<lambda>i b. b[offset + i := setLsb (b ! (offset + i)) (full ! i)]) [0..<n] buf) = length buf \<and>
   (\<forall>j < length buf.
      fold (\<lambda>i b. b[offset + i := setLsb (b ! (offset + i)) (full ! i)]) [0..<n] buf ! j =
        (if offset \<le> j \<and> j < offset + n then setLsb (buf ! j) (full ! (j - offset)) else buf ! j))"
proof (induction n)
  case 0
  show ?case by auto
next
  case (Suc n)
  then show ?case by (auto simp: nth_list_update)
qed

lemma length_audioWrite:
  "offset + length full \<le> length buf \<Longrightarrow> length (audioWrite full offset buf) = length buf"
  using audioWrite_steps [of "length full" full offset buf] by (simp add: audioWrite_def)

lemma nth_audioWrite:
  "offset + length full \<le> length buf \<Longrightarrow> j < length buf \<Longrightarrow>
   audioWrite full offset buf ! j =
     (if offset \<le> j \<and> j < offset + length full then setLsb (buf ! j) (full ! (j - offset))
      else buf ! j)"
  using audioWrite_steps [of "length full" full offset buf] by (simp add: audioWrite_def)

lemma sampleBit_audioWrite:
  "offset + chunkSize \<le> length buf \<Longrightarrow> length full \<le> chunkSize \<Longrightarrow> i < length full \<Longrightarrow>
   sampleBit (audioWrite full offset buf) offset chunkSize i = full ! i"
  by (simp add: sampleBit_def nth_audioWrite lsb_setLsb)

lemma sampleBits_audioWrite:
  assumes "offset + chunkSize \<le> length buf" and "length full \<le> chunkSize" and "b \<le> length full"
  shows "map (sampleBit (audioWrite full offset buf) offset chunkSize) [a..<b] = drop a (take b full)"
  using assms by (intro nth_equalityI) (simp_all add: sampleBit_audioWrite)

section \<open>Encoding and decoding a frame\<close>

lemma encodeImage_success:
  "finalMessageFor P message password = Inr fm \<Longrightarrow> 4 * length (frame fm) \<le> length data * 3 \<Longrightarrow>
   encodeImage P data message password =
     (encodeLoop (frame fm) data 0 0, Inr (encodeLoop (frame fm) data 0 0))"
  unfolding encodeImage_def Let_def by simp

lemma encodeImage_capacity:
  "finalMessageFor P message password = Inr fm \<Longrightarrow> length data * 3 < 4 * length (frame fm) \<Longrightarrow>
   encodeImage P data message password =
     (data, Inl (Error (capacityExceededMsg (length (frame fm)) (length data * 3 div 4))))"
  unfolding encodeImage_def Let_def by simp

lemma read_written_image:
  assumes cap: "4 * length full \<le> length data * 3"
  shows "take (length full) (map lsb (slots (encodeLoop full data 0 0))) = full"
proof -
  have "length full \<le> length (slotsFrom 0 data)"
    using capacity_slots [OF cap] by (simp add: slots_def)
  then show ?thesis
    using encodeLoop_read [of 0 full 0 data] by (simp add: slots_def)
qed

lemma decodeImage_encoded:
  assumes ne: "fm \<noteq> []"
    and small: "16 * length fm < 2 ^ 32"
    and cap: "4 * (32 + 16 * length fm) \<le> length data * 3"
  shows "decodeImage P (encodeLoop (frame fm) data 0 0) password = decryptIfPassword P fm password"
proof -
  let ?full = "frame fm"
  let ?D = "encodeLoop ?full data 0 0"
  let ?L = "16 * length fm"
  note parts = frame_parts [OF small]
  have cap': "4 * length ?full \<le> length data * 3"
    using cap by (simp add: parts(3))
  have written: "take (32 + ?L) (map lsb (slots ?D)) = ?full"
    using read_written_image [OF cap'] by (simp add: parts(3))
  obtain lengthBin dataIndex where r: "readLoop 32 ?D 0 [] = (lengthBin, dataIndex)"
    by (cases "readLoop 32 ?D 0 []")
  have "lengthBin = take 32 (map lsb (slots ?D))"
    using readLoop_slots [of 32 ?D 0 "[]"] r by (simp add: slots_def)
  also have "\<dots> = take 32 (take (32 + ?L) (map lsb (slots ?D)))"
    by (simp add: min_def)
  finally have hdr: "lengthBin = take 32 ?full"
    by (simp only: written)
  then have len: "parseInt2 lengthBin = Some ?L"
    by (simp add: parts(4))
  have "slotsFrom dataIndex ?D = drop 32 (slots ?D)"
    using readLoop_rest [of 32 ?D 0 "[]"] r by (simp add: slots_def)
  then have "fst (readLoop ?L ?D dataIndex []) = take ?L (drop 32 (map lsb (slots ?D)))"
    using readLoop_slots [of ?L ?D dataIndex "[]"] by (simp add: drop_map)
  also have "\<dots> = drop 32 (take (32 + ?L) (map lsb (slots ?D)))"
    by (simp add: take_drop add.commute)
  finally have body: "fst (readLoop ?L ?D dataIndex []) = stringToBinary fm"
    by (simp only: written parts(2))
  have guard: "\<not> (?L \<le> 0 \<or> ?L > length ?D * 8)"
    using ne cap by (simp add: length_encodeLoop)
  show ?thesis
    unfolding decodeImage_def r prod.case len option.case
    by (simp only: guard if_False body binaryToString_stringToBinary)
qed

lemma encodeAudio_success:
  "findDataChunk buf 12 = Inr (Some (offset, chunkSize)) \<Longrightarrow>
   finalMessageFor P message password = Inr fm \<Longrightarrow> length (frame fm) \<le> chunkSize \<Longrightarrow>
   encodeAudio P buf message password =
     (audioWrite (frame fm) offset buf, Inr (audioWrite (frame fm) offset buf))"
  unfolding encodeAudio_def Let_def by simp

lemma encodeAudio_capacity:
  "findDataChunk buf 12 = Inr (Some (offset, chunkSize)) \<Longrightarrow>
   finalMessageFor P message password = Inr fm \<Longrightarrow> chunkSize < length (frame fm) \<Longrightarrow>
   encodeAudio P buf message password = (buf, Inl (Error audioCapacityMsg))"
  unfolding encodeAudio_def Let_def by simp

lemma findDataChunk_audioWrite:
  assumes found: "findDataChunk buf 12 = Inr (Some (offset, chunkSize))"
    and fits: "length full \<le> chunkSize"
  shows "findDataChunk (audioWrite full offset buf) 12 = Inr (Some (offset, chunkSize))"
proof (rule findDataChunk_cong [OF found])
  from findDataChunk_bounds [OF found] have "offset + chunkSize \<le> length buf"
    by (rule conjunct2)
  with fits have inside: "offset + length full \<le> length buf"
    by simp
  then show "length (audioWrite full offset buf) = length buf"
    by (rule length_audioWrite)
  show "\<forall>j < offset. audioWrite full offset buf ! j = buf ! j"
  proof (intro allI impI)
    fix j
    assume "j < offset"
    with inside have "j < length buf" "\<not> (offset \<le> j \<and> j < offset + length full)"
      by simp_all
    with nth_audioWrite [OF inside, of j] show "audioWrite full offset buf ! j = buf ! j"
      by (simp only: if_False)
  qed
qed

lemma decodeAudio_encoded:
  assumes found: "findDataChunk buf 12 = Inr (Some (offset, chunkSize))"
    and ne: "fm \<noteq> []"
    and small: "16 * length fm < 2 ^ 32"
    and cap: "32 + 16 * length fm \<le> chunkSize"
  shows "decodeAudio P (audioWrite (frame fm) offset buf) password = decryptIfPassword P fm password"
proof -
  let ?full = "frame fm"
  let ?B = "audioWrite ?full offset buf"
  let ?L = "16 * length fm"
  note parts = frame_parts [OF small]
  have fits: "length ?full \<le> chunkSize"
    using cap by (simp add: parts(3))
  have inside: "offset + chunkSize \<le> length buf"
    using findDataChunk_bounds [OF found] by simp
  have hdr: "map (sampleBit ?B offset chunkSize) [0..<32] = take 32 ?full"
    using sampleBits_audioWrite [OF inside fits, of 32 0] by (simp add: parts(3))
  have body: "map (sampleBit ?B offset chunkSize) [32..<32 + ?L] = stringToBinary fm"
    using sampleBits_audioWrite [OF inside fits, of "32 + ?L" 32] parts(2,3) by simp
  have guard: "\<not> (?L \<le> 0 \<or> ?L > chunkSize)"
    using ne cap by simp
  have len: "parseInt2 (take 32 ?full) = Some ?L"
    by (rule parts(4))
  show ?thesis
    unfolding decodeAudio_def findDataChunk_audioWrite [OF found fits] sum.case option.case
      prod.case Let_def hdr len
    by (simp only: guard if_False body binaryToString_stringToBinary)
qed

section \<open>Claims about the image and audio carriers\<close>

lemma encodeLoop_high_bits:
  "j < length data \<Longrightarrow> drop_bit 1 (encodeLoop full data i k ! j) = drop_bit 1 (data ! j)"
  using encodeLoop_pointwise [of j data full i k] high_bits_setLsb by (auto simp del: One_nat_def)

lemma encodeLoop_alpha_kept:
  "j < length data \<Longrightarrow> (j + 1) mod 4 = 0 \<Longrightarrow> encodeLoop full data i k ! j = data ! j"
  using encodeLoop_pointwise [of j data full i k] by auto

lemma readLoop_written:
  assumes "4 * length full \<le> length data * 3"
  shows "fst (readLoop (length full) (encodeLoop full data 0 0) 0 []) = full"
  using read_written_image [OF assms] readLoop_slots [of "length full" "encodeLoop full data 0 0" 0 "[]"]
  by (simp add: slots_def)

text \<open>
  C9. Writing a frame into an image keeps the number of bytes, keeps the upper seven bits
  of every byte and keeps every fourth byte (alpha) entirely; reading \<open>n\<close> bits returns
  the least-significant bits of the first \<open>n\<close> slots in slot order; and for a frame
  within capacity, reading the written image returns the frame, bit for bit in order.
\<close>

theorem image_write_touches_lsb_only:
  "length (encodeLoop full data 0 0) = length data \<and>
   (\<forall>j < length data. drop_bit 1 (encodeLoop full data 0 0 ! j) = drop_bit 1 (data ! j)) \<and>
   (\<forall>j < length data. (j + 1) mod 4 = 0 \<longrightarrow> encodeLoop full data 0 0 ! j = data ! j) \<and>
   fst (readLoop n buf 0 []) = take n (map lsb (slots buf)) \<and>
   (4 * length full \<le> length data * 3 \<longrightarrow>
      fst (readLoop (length full) (encodeLoop full data 0 0) 0 []) = full)"
proof (intro conjI allI impI)
  show "length (encodeLoop full data 0 0) = length data"
    by (rule length_encodeLoop)
  show "fst (readLoop n buf 0 []) = take n (map lsb (slots buf))"
    using readLoop_slots [of n buf 0 "[]"] by (simp add: slots_def)
qed (simp_all only: encodeLoop_high_bits encodeLoop_alpha_kept readLoop_written)

theorem image_write_touches_lsb_only_witness:
  "fst (readLoop (length [True, False, True])
          (encodeLoop [True, False, True] [6, 7, 8, 9] 0 0) 0 []) = [True, False, True] \<and>
   encodeLoop [True, False, True] [6, 7, 8, 9] 0 0 ! 3 = 9"
proof -
  note t = image_write_touches_lsb_only [of "[True, False, True]" "[6, 7, 8, 9]" 3 "[]"]
  have cap: "4 * length [True, False, True] \<le> length [6, 7, 8, 9 :: byte] * 3"
    by simp
  have alpha: "3 < length [6, 7, 8, 9 :: byte]" "(3 + 1) mod 4 = (0 :: nat)"
    by simp_all
  from t have "4 * length [True, False, True] \<le> length [6, 7, 8, 9 :: byte] * 3 \<longrightarrow>
      fst (readLoop (length [True, False, True])
        (encodeLoop [True, False, True] [6, 7, 8, 9] 0 0) 0 []) = [True, False, True]"
    by (elim conjE)
  with cap have read: "fst (readLoop (length [True, False, True])
      (encodeLoop [True, False, True] [6, 7, 8, 9] 0 0) 0 []) = [True, False, True]"
    by (rule rev_mp)
  from t have "\<forall>j < length [6, 7, 8, 9 :: byte]. (j + 1) mod 4 = 0 \<longrightarrow>
      encodeLoop [True, False, True] [6, 7, 8, 9] 0 0 ! j = [6, 7, 8, 9] ! j"
    by (elim conjE)
  with alpha have "encodeLoop [True, False, True] [6, 7, 8, 9] 0 0 ! 3 = [6, 7, 8, 9] ! 3"
    by (elim allE [of _ 3]) (simp only: simp_thms)
  then have "encodeLoop [True, False, True] [6, 7, 8, 9] 0 0 ! 3 = 9"
    by simp
  with read show ?thesis by (rule conjI)
qed

text \<open>
  C4. With \<open>fm\<close> the text that is framed (the message, or its envelope when a password is
  given): a frame of \<open>32 + 16 * length fm\<close> bits that exceeds three quarters of the
  channel bytes of an image, or the byte count of the \<open>data\<close> chunk of a WAV buffer, makes
  the encoder fail with its capacity error and leaves the buffer as it was; a frame of
  exactly that size is encoded.
\<close>

theorem capacity_boundary:
  assumes "finalMessageFor P message password = Inr fm"
  shows
    "(length data * 3 < 4 * (32 + 16 * length fm) \<longrightarrow>
        encodeImage P data message password =
          (data, Inl (Error (capacityExceededMsg (length (frame fm)) (length data * 3 div 4))))) \<and>
     (16 * length fm < 2 ^ 32 \<and> 4 * (32 + 16 * length fm) = length data * 3 \<longrightarrow>
        (\<exists>out. encodeImage P data message password = (out, Inr out))) \<and>
     (findDataChunk buf 12 = Inr (Some (offset, chunkSize)) \<longrightarrow>
        (chunkSize < 32 + 16 * length fm \<longrightarrow>
           encodeAudio P buf message password = (buf, Inl (Error audioCapacityMsg))) \<and>
        (16 * length fm < 2 ^ 32 \<and> 32 + 16 * length fm = chunkSize \<longrightarrow>
           (\<exists>out. encodeAudio P buf message password = (out, Inr out))))"
proof (intro conjI impI)
  assume "length data * 3 < 4 * (32 + 16 * length fm)"
  with length_frame_ge [of fm] have "length data * 3 < 4 * length (frame fm)" by simp
  with assms show "encodeImage P data message password =
      (data, Inl (Error (capacityExceededMsg (length (frame fm)) (length data * 3 div 4))))"
    by (rule encodeImage_capacity)
next
  assume a: "16 * length fm < 2 ^ 32 \<and> 4 * (32 + 16 * length fm) = length data * 3"
  then have "4 * length (frame fm) \<le> length data * 3"
    using frame_parts(3) [of fm] by simp
  with assms show "\<exists>out. encodeImage P data message password = (out, Inr out)"
    by (simp add: encodeImage_success)
next
  assume found: "findDataChunk buf 12 = Inr (Some (offset, chunkSize))"
    and "chunkSize < 32 + 16 * length fm"
  with length_frame_ge [of fm] have "chunkSize < length (frame fm)" by simp
  with found assms show "encodeAudio P buf message password = (buf, Inl (Error audioCapacityMsg))"
    by (rule encodeAudio_capacity)
next
  assume found: "findDataChunk buf 12 = Inr (Some (offset, chunkSize))"
    and a: "16 * length fm < 2 ^ 32 \<and> 32 + 16 * length fm = chunkSize"
  then have "length (frame fm) \<le> chunkSize"
    using frame_parts(3) [of fm] by simp
  with found assms show "\<exists>out. encodeAudio P buf message password = (out, Inr out)"
    by (simp add: encodeAudio_success)
qed

lemma finalMessageFor_None: "finalMessageFor P message None = Inr message"
  by (simp add: finalMessageFor_def)

lemma findDataChunk_demoWav: "n < 256 \<Longrightarrow> findDataChunk (demoWav n) 12 = Inr (Some (20, n))"
  by (simp add: findDataChunk.simps getUint32LE_def demoWav_def nth_append ascii_def unat_of_nat)

theorem capacity_boundary_witness:
  "encodeImage demoPlatform (replicate 60 0) (ascii ''a'') None =
     (replicate 60 0, Inl (Error (capacityExceededMsg (length (frame (ascii ''a''))) 45))) \<and>
   (\<exists>out. encodeImage demoPlatform (replicate 64 0) (ascii ''a'') None = (out, Inr out)) \<and>
   encodeAudio demoPlatform (demoWav 47) (ascii ''a'') None =
     (demoWav 47, Inl (Error audioCapacityMsg)) \<and>
   (\<exists>out. encodeAudio demoPlatform (demoWav 48) (ascii ''a'') None = (out, Inr out))"
proof -
  have fm: "finalMessageFor demoPlatform (ascii ''a'') None = Inr (ascii ''a'')"
    by (rule finalMessageFor_None)
  have w47: "findDataChunk (demoWav 47) 12 = Inr (Some (20, 47))"
    and w48: "findDataChunk (demoWav 48) 12 = Inr (Some (20, 48))"
    by (simp_all add: findDataChunk_demoWav)
  from capacity_boundary [OF fm, of "replicate 60 0" "demoWav 47" 20 47] w47
  have over: "encodeImage demoPlatform (replicate 60 0) (ascii ''a'') None =
     (replicate 60 0, Inl (Error (capacityExceededMsg (length (frame (ascii ''a''))) 45)))"
    "encodeAudio demoPlatform (demoWav 47) (ascii ''a'') None =
     (demoWav 47, Inl (Error audioCapacityMsg))"
    by (simp_all add: ascii_def)
  from capacity_boundary [OF fm, of "replicate 64 0" "demoWav 48" 20 48] w48
  have exact: "\<exists>out. encodeImage demoPlatform (replicate 64 0) (ascii ''a'') None = (out, Inr out)"
    "\<exists>out. encodeAudio demoPlatform (demoWav 48) (ascii ''a'') None = (out, Inr out)"
    by (simp_all add: ascii_def)
  from over exact show ?thesis by blast
qed

lemma overlongWav_bytes:
  "overlongWav = [0, 0, 0, 0, 0, 0, 0, 0, 0, 0, 0, 0, 100, 97, 116, 97, 48, 0, 0, 0,
     0, 0, 0, 0, 0, 0, 0, 0, 0, 0, 0, 0, 0, 0, 0, 0, 0, 0, 0, 0, 0, 0, 0, 0, 0, 0, 1, 1,
     0, 0, 0, 0, 0, 0, 0, 0, 0, 0, 0, 0, 0, 0, 0, 0, 0, 0, 0, 0]"
  by code_simp

lemma findDataChunk_overlongWav: "findDataChunk overlongWav 12 = Inr (Some (20, 48))"
  unfolding overlongWav_bytes
  by (simp add: findDataChunk.simps getUint32LE_def ascii_def)

lemma header_overlongWav:
  "map (sampleBit overlongWav 20 48) [0..<32] =
     replicate 26 False @ [True, True, False, False, False, False]"
  unfolding overlongWav_bytes by code_simp

lemma body_overlongWav:
  "binaryToString (map (sampleBit overlongWav 20 48) [32..<32 + 48]) = [0, 0, 0]"
  unfolding overlongWav_bytes by code_simp

text \<open>
  C3 does not hold of the code. The image \<open>shortImage\<close> has 36 slots; its first 32 spell
  the length 16 and only 4 slots follow, yet \<open>decodeImage\<close> raises no error: its guard
  compares the length with eight times the byte count, reads the 4 bits that are there and
  returns one character. \<open>decodeAudio\<close> compares with the chunk size without the 32
  header bytes: on \<open>overlongWav\<close> (48 declared, 16 present) it pads with zero bits read
  past the end and returns three characters.
\<close>

theorem decode_declared_length_beyond_carrier:
  "parseInt2 (fst (readLoop 32 shortImage 0 [])) = Some 16 \<and>
   length (drop 32 (slots shortImage)) = 4 \<and>
   decodeImage P shortImage None = Inr [0] \<and>
   findDataChunk overlongWav 12 = Inr (Some (20, 48)) \<and>
   parseInt2 (map (sampleBit overlongWav 20 48) [0..<32]) = Some 48 \<and>
   decodeAudio P overlongWav None = Inr [0, 0, 0]"
proof -
  have img: "parseInt2 (fst (readLoop 32 shortImage 0 [])) = Some 16"
    "length (drop 32 (slots shortImage)) = 4"
    "decodeImage P shortImage None = Inr [0]"
    by code_simp+
  have len: "parseInt2 (map (sampleBit overlongWav 20 48) [0..<32]) = Some 48"
    unfolding header_overlongWav by code_simp
  have "decodeAudio P overlongWav None = Inr [0, 0, 0]"
    unfolding decodeAudio_def findDataChunk_overlongWav sum.case option.case prod.case Let_def len
    by (simp only: body_overlongWav decryptIfPassword_def truthyPassword.simps option.case)
       simp
  with img findDataChunk_overlongWav len show ?thesis by (intro conjI)
qed

section \<open>Properties of the base64 functions\<close>

lemma unat_ascii_char: "unat (of_nat (of_char c) :: 16 word) = of_char c"
proof -
  have "(of_char c :: nat) < 65536"
    using nat_of_char_less_256 [of c] by linarith
  then show ?thesis by (simp add: unat_of_nat)
qed

lemma ascii_latin1: "\<not> list_ex (\<lambda>c. 255 < unat c) (ascii s)"
proof -
  have "\<And>c. \<not> 255 < (of_char c :: nat)"
    using nat_of_char_less_256 by (simp add: not_less less_Suc_eq_le [symmetric])
  then show ?thesis
    by (simp add: list_ex_iff ascii_def unat_ascii_char)
qed

lemma encodeGroups_payload: "encodeGroups bs = payloadGroups bs @ replicate (padCount bs) 64"
  by (induction bs rule: encodeGroups.induct) (simp_all add: numeral_2_eq_2)

lemma payloadGroups_small:
  "\<forall>b\<in>set bs. b < 256 \<Longrightarrow> \<forall>v\<in>set (payloadGroups bs). v < 64"
proof (induction bs rule: payloadGroups.induct)
  case (1 a b c rest)
  then have "a < 256" "b < 256" "c < 256" by simp_all
  then have "a div 4 < 64" "(a mod 4) * 16 + b div 16 < 64" "(b mod 16) * 4 + c div 64 < 64"
    by arith+
  with 1 show ?case by simp
next
  case (2 a b)
  then have "a < 256" "b < 256" by simp_all
  then have "a div 4 < 64" "(a mod 4) * 16 + b div 16 < 64" "(b mod 16) * 4 < 64"
    by arith+
  then show ?case by simp
next
  case (3 a)
  then have "a < 256" by simp
  then have "a div 4 < 64" "(a mod 4) * 16 < 64" by arith+
  then show ?case by simp
next
  case 4
  show ?case by simp
qed

lemma sextets_first:
  assumes "b < 256"
  shows "a div 4 * 4 + (a mod 4 * 16 + b div 16) div 16 = (a :: nat)"
proof -
  from assms have "b div 16 < 16" by arith
  then have "(a mod 4 * 16 + b div 16) div 16 = a mod 4" by simp
  then show ?thesis by simp
qed

lemma sextets_second:
  assumes "b < 256" and "c < 256"
  shows "(a mod 4 * 16 + b div 16) mod 16 * 16 + (b mod 16 * 4 + c div 64) div 4 = (b :: nat)"
proof -
  from assms have "b div 16 < 16" "c div 64 < 4" by arith+
  then have "(a mod 4 * 16 + b div 16) mod 16 = b div 16"
    and "(b mod 16 * 4 + c div 64) div 4 = b mod 16" by simp_all
  then show ?thesis by simp
qed

lemma sextets_third:
  assumes "c < 256"
  shows "(b mod 16 * 4 + c div 64) mod 4 * 64 + c mod 64 = (c :: nat)"
proof -
  from assms have "c div 64 < 4" by arith
  then have "(b mod 16 * 4 + c div 64) mod 4 = c div 64" by simp
  then show ?thesis by simp
qed

lemma sextets_last_two:
  assumes "b < 256"
  shows "(a mod 4 * 16 + b div 16) mod 16 * 16 + (b mod 16 * 4) div 4 = (b :: nat)"
proof -
  from assms have "b div 16 < 16" by arith
  then have "(a mod 4 * 16 + b div 16) mod 16 = b div 16" by simp
  then show ?thesis by simp
qed

lemma sextets_last_one: "a div 4 * 4 + (a mod 4 * 16) div 16 = (a :: nat)"
  by simp

lemma decodeGroups_payloadGroups:
  "\<forall>b\<in>set bs. b < 256 \<Longrightarrow> decodeGroups (payloadGroups bs) = bs"
proof (induction bs rule: payloadGroups.induct)
  case (1 a b c rest)
  then have "a < 256" "b < 256" "c < 256" by simp_all
  with 1 show ?case
    by (simp add: sextets_first sextets_second sextets_third)
next
  case (2 a b)
  then have "a < 256" "b < 256" by simp_all
  then show ?case
    using sextets_first [of b a] sextets_last_two [of b a] by simp
next
  case (3 a)
  show ?case by simp
next
  case 4
  show ?case by simp
qed

lemma length_payloadGroups_mod: "length (payloadGroups bs) mod 4 \<noteq> 1"
  by (induction bs rule: payloadGroups.induct) simp_all

lemma length_encodeGroups_mod: "length (encodeGroups bs) mod 4 = 0"
  by (induction bs rule: encodeGroups.induct) simp_all

lemma padCount_cases: "padCount bs = 0 \<or> padCount bs = 1 \<or> padCount bs = 2"
  by (induction bs rule: padCount.induct) simp_all

lemma payloadGroups_nonempty: "padCount bs \<noteq> 0 \<Longrightarrow> payloadGroups bs \<noteq> []"
  by (induction bs rule: padCount.induct) simp_all

lemma length_base64Alphabet: "length base64Alphabet = 64"
  by (simp add: base64Alphabet_def)

lemma base64Char_in_alphabet: "v < 64 \<Longrightarrow> base64Char v \<in> set base64Alphabet"
  by (simp add: base64Char_def length_base64Alphabet)

lemma alphabet_not_whitespace:
  "c \<in> set base64Alphabet \<Longrightarrow> \<not> isAsciiWhitespace (of_nat (of_char c))"
  by (auto simp: base64Alphabet_def isAsciiWhitespace_def)

lemma alphabet_not_padding:
  "c \<in> set base64Alphabet \<Longrightarrow> (of_nat (of_char c) :: 16 word) \<noteq> 61"
  by (auto simp: base64Alphabet_def)

lemma base64Char_not_whitespace:
  "v \<le> 64 \<Longrightarrow> \<not> isAsciiWhitespace (of_nat (of_char (base64Char v)))"
proof (cases "v < 64")
  case True
  then show ?thesis by (intro alphabet_not_whitespace base64Char_in_alphabet)
next
  case False
  then show ?thesis by (simp add: base64Char_def isAsciiWhitespace_def)
qed

lemma base64Char_not_padding:
  "v < 64 \<Longrightarrow> (of_nat (of_char (base64Char v)) :: 16 word) \<noteq> 61"
  by (intro alphabet_not_padding base64Char_in_alphabet)

lemma distinct_alphabet: "distinct (ascii base64Alphabet)"
  by (simp add: base64Alphabet_def ascii_def)

lemma base64Index_base64Char:
  assumes "v < 64"
  shows "base64Index (of_nat (of_char (base64Char v))) = Some v"
proof -
  have "map_of (zip (ascii base64Alphabet) [0..<64]) (ascii base64Alphabet ! v) = Some ([0..<64] ! v)"
    using assms distinct_alphabet
    by (intro map_of_zip_nth) (simp_all add: ascii_def length_base64Alphabet)
  with assms show ?thesis
    by (simp add: base64Index_def base64Char_def ascii_def length_base64Alphabet)
qed

lemma those_base64Index:
  "\<forall>v\<in>set vs. v < 64 \<Longrightarrow> those (map base64Index (ascii (map base64Char vs))) = Some vs"
  by (induction vs) (simp_all add: ascii_def base64Index_base64Char)

lemma filter_whitespace_encoded:
  "\<forall>v\<in>set vs. v \<le> 64 \<Longrightarrow>
   filter (\<lambda>c. \<not> isAsciiWhitespace c) (ascii (map base64Char vs)) = ascii (map base64Char vs)"
  by (simp add: filter_id_conv ascii_def base64Char_not_whitespace)

lemma ascii_padded:
  "ascii (map base64Char (payload @ replicate p 64)) = ascii (map base64Char payload) @ replicate p 61"
  by (simp add: ascii_def base64Char_def)

lemma stripPadding_plain:
  assumes "\<forall>c\<in>set X. c \<noteq> 61"
  shows "stripPadding X = X"
proof (cases X rule: rev_cases)
  case Nil
  then show ?thesis by (simp add: stripPadding_def)
next
  case (snoc Y x)
  with assms have "x \<noteq> 61" by simp
  with snoc show ?thesis by (simp add: stripPadding_def ascii_def)
qed

lemma stripPadding_one:
  assumes "\<forall>c\<in>set X. c \<noteq> 61" and "X \<noteq> []"
  shows "stripPadding (X @ [61]) = X"
proof (cases X rule: rev_cases)
  case Nil
  with assms show ?thesis by simp
next
  case (snoc Y x)
  with assms have "x \<noteq> 61" by simp
  with snoc show ?thesis by (simp add: stripPadding_def ascii_def)
qed

lemma stripPadding_two: "stripPadding (X @ [61, 61]) = X"
  by (simp add: stripPadding_def ascii_def)

lemma stripPadding_encoded:
  assumes small: "\<forall>v\<in>set payload. v < 64"
    and p: "p = 0 \<or> p = 1 \<or> p = 2"
    and ne: "p \<noteq> 0 \<Longrightarrow> payload \<noteq> []"
  shows "stripPadding (ascii (map base64Char (payload @ replicate p 64))) = ascii (map base64Char payload)"
proof -
  let ?X = "ascii (map base64Char payload)"
  have nopad: "\<forall>c\<in>set ?X. c \<noteq> 61"
    using small by (auto simp: ascii_def base64Char_not_padding)
  from p consider "p = 0" | "p = 1" | "p = 2" by blast
  then have "stripPadding (?X @ replicate p 61) = ?X"
  proof cases
    case 1
    then show ?thesis using stripPadding_plain [OF nopad] by simp
  next
    case 2
    with ne have "?X \<noteq> []" by (simp add: ascii_def)
    with 2 show ?thesis using stripPadding_one [OF nopad] by simp
  next
    case 3
    then show ?thesis using stripPadding_two [of ?X]
      by (simp add: numeral_2_eq_2)
  qed
  then show ?thesis by (simp only: ascii_padded)
qed

lemma atob_encoded:
  assumes bytes: "\<forall>b\<in>set bs. b < 256"
  shows "atob (ascii (map base64Char (encodeGroups bs))) = Inr (map of_nat bs)"
proof -
  let ?payload = "payloadGroups bs"
  let ?t = "ascii (map base64Char (encodeGroups bs))"
  have small: "\<forall>v\<in>set ?payload. v < 64"
    using payloadGroups_small [OF bytes] .
  then have le: "\<forall>v\<in>set (encodeGroups bs). v \<le> 64"
    by (auto simp: encodeGroups_payload)
  have d1: "filter (\<lambda>c. \<not> isAsciiWhitespace c) ?t = ?t"
    using filter_whitespace_encoded [OF le] .
  have len: "length ?t mod 4 = 0"
    by (simp add: ascii_def length_encodeGroups_mod)
  have d2: "stripPadding ?t = ascii (map base64Char ?payload)"
    unfolding encodeGroups_payload
    using small padCount_cases [of bs] payloadGroups_nonempty [of bs]
    by (intro stripPadding_encoded) auto
  have not1: "length (ascii (map base64Char ?payload)) mod 4 \<noteq> 1"
    using length_payloadGroups_mod [of bs] by (simp add: ascii_def)
  show ?thesis
    unfolding atob_def d1 Let_def
    using len not1
    by (simp add: d2 those_base64Index [OF small] decodeGroups_payloadGroups [OF bytes])
qed

lemma atob_btoa:
  assumes "\<not> list_ex (\<lambda>c. 255 < unat c) s"
  shows "btoa s = Inr (ascii (map base64Char (encodeGroups (map unat s))))"
    and "atob (ascii (map base64Char (encodeGroups (map unat s)))) = Inr s"
proof -
  show "btoa s = Inr (ascii (map base64Char (encodeGroups (map unat s))))"
    using assms by (simp add: btoa_def)
  have "\<forall>b\<in>set (map unat s). b < 256"
    using assms by (auto simp: list_ex_iff not_less)
  from atob_encoded [OF this]
  show "atob (ascii (map base64Char (encodeGroups (map unat s)))) = Inr s"
    by (simp add: comp_def)
qed

lemma btoa_rejects: "list_ex (\<lambda>c. 255 < unat c) s \<Longrightarrow> btoa s = Inl (DOMException ''InvalidCharacterError'')"
  by (simp add: btoa_def)

section \<open>Properties of the PDF carrier\<close>

lemma flag_nonempty: "flag \<noteq> []"
  by (simp add: flag_def ascii_def)

lemma replaceFirst_prefix:
  assumes "pat \<noteq> []"
  shows "replaceFirst pat rep (pat @ xs) = rep @ xs"
proof -
  from assms obtain c cs where split: "pat @ xs = c # cs" by (cases pat) auto
  have "prefix pat (c # cs)" "drop (length pat) (c # cs) = xs"
    unfolding split [symmetric] by simp_all
  then show ?thesis unfolding split by simp
qed

lemma rawData_of_subject: "replaceFirst flag [] (flag @ rawData) = rawData"
  using replaceFirst_prefix [OF flag_nonempty, of "[]" rawData] by simp

lemma decodePdf_absent: "subject pdfDoc = None \<Longrightarrow> decodePdf P pdfDoc password = Inl (Error noHiddenMessageMsg)"
  by (simp add: decodePdf_def)

lemma decodePdf_no_prefix:
  "subject pdfDoc = Some subj \<Longrightarrow> \<not> prefix flag subj \<Longrightarrow>
   decodePdf P pdfDoc password = Inl (Error noHiddenMessageMsg)"
  by (simp add: decodePdf_def)

lemma decodePdf_prefixed:
  "subject pdfDoc = Some (flag @ rawData) \<Longrightarrow>
   decodePdf P pdfDoc password =
     (case atob rawData of
        Inl e \<Rightarrow> Inl (Error corruptedEncodingMsg)
      | Inr decoded \<Rightarrow> decryptIfPassword P decoded password)"
  by (simp add: decodePdf_def rawData_of_subject flag_nonempty Let_def)

lemma decodePdf_success:
  assumes "decodePdf P pdfDoc password = Inr message"
  shows "\<exists>rawData decoded. subject pdfDoc = Some (flag @ rawData) \<and> atob rawData = Inr decoded"
proof (cases "subject pdfDoc")
  case None
  with assms show ?thesis by (simp add: decodePdf_absent)
next
  case (Some subj)
  show ?thesis
  proof (cases "prefix flag subj")
    case False
    with Some assms show ?thesis by (simp add: decodePdf_no_prefix)
  next
    case True
    then obtain rawData where "subj = flag @ rawData" by (auto simp: prefix_def)
    with Some assms show ?thesis
      by (cases "atob rawData") (simp_all add: decodePdf_prefixed)
  qed
qed

lemma encodePdf_subject:
  assumes "encodePdf P doc0 message password = Inr doc1"
  shows "(\<exists>finalMessage. subject doc1 = Some (flag @ finalMessage)) \<and>
         otherContent doc1 = otherContent doc0"
  using assms by (auto simp: encodePdf_def bindE_def split: sum.splits option.splits)

lemma encodePdf_plain:
  "truthyPassword password = None \<Longrightarrow>
   encodePdf P pdfDoc message password =
     (case btoa message of
        Inl e \<Rightarrow> Inl e
      | Inr finalMessage \<Rightarrow> Inr (pdfDoc\<lparr>subject := Some (flag @ finalMessage)\<rparr>))"
  by (simp add: encodePdf_def bindE_def)

lemma encodePdf_password:
  "truthyPassword password = Some p \<Longrightarrow> encryptMessage P message p = Inr envelope \<Longrightarrow>
   encodePdf P pdfDoc message password =
     (case btoa envelope of
        Inl e \<Rightarrow> Inl e
      | Inr finalMessage \<Rightarrow> Inr (pdfDoc\<lparr>subject := Some (flag @ finalMessage)\<rparr>))"
  by (simp add: encodePdf_def bindE_def)

lemma encryptMessage_envelope:
  assumes "encryptMessage P message p = Inr envelope"
  shows "\<exists>d. envelope = stringifyBundle (getRandomValues P SALT_LENGTH) (getRandomValues P IV_LENGTH) d"
  using assms
  by (auto simp: encryptMessage_def encryptAttempt_def bindE_def Let_def split: sum.splits)

lemma stringifyBundle_latin1: "\<not> list_ex (\<lambda>c. 255 < unat c) (stringifyBundle s iv d)"
  unfolding stringifyBundle_def by (rule ascii_latin1)

text \<open>
  C8. \<open>decodePdf\<close> raises the not-found error when the Subject is absent or does not
  start with the marker, and the encoding error when the text after the marker is rejected
  by the base64 decoder; when it returns, the Subject is the marker followed by a text the
  decoder accepts; \<open>encodePdf\<close> stores its data under that marker, \<open>STEGAPP_HIDDEN:\<close>,
  and changes nothing but the Subject.
\<close>

theorem decodePdf_errors:
  "(subject pdfDoc = None \<or> (\<exists>subj. subject pdfDoc = Some subj \<and> \<not> prefix flag subj) \<longrightarrow>
      decodePdf P pdfDoc password = Inl (Error noHiddenMessageMsg)) \<and>
   (subject pdfDoc = Some (flag @ rawData) \<and> atob rawData = Inl e \<longrightarrow>
      decodePdf P pdfDoc password = Inl (Error corruptedEncodingMsg)) \<and>
   (decodePdf P pdfDoc password = Inr message \<longrightarrow>
      (\<exists>rawData decoded. subject pdfDoc = Some (flag @ rawData) \<and> atob rawData = Inr decoded)) \<and>
   (encodePdf P carrier plain pw = Inr stored \<longrightarrow>
      (\<exists>finalMessage. subject stored = Some (flag @ finalMessage)) \<and>
      otherContent stored = otherContent carrier) \<and>
   flag = ascii ''STEGAPP_HIDDEN:''"
proof (intro conjI impI)
  assume "subject pdfDoc = None \<or> (\<exists>subj. subject pdfDoc = Some subj \<and> \<not> prefix flag subj)"
  then show "decodePdf P pdfDoc password = Inl (Error noHiddenMessageMsg)"
    by (auto simp: decodePdf_absent decodePdf_no_prefix)
next
  assume "subject pdfDoc = Some (flag @ rawData) \<and> atob rawData = Inl e"
  then show "decodePdf P pdfDoc password = Inl (Error corruptedEncodingMsg)"
    by (simp add: decodePdf_prefixed)
next
  assume "decodePdf P pdfDoc password = Inr message"
  then show "\<exists>rawData decoded. subject pdfDoc = Some (flag @ rawData) \<and> atob rawData = Inr decoded"
    by (rule decodePdf_success)
next
  assume enc: "encodePdf P carrier plain pw = Inr stored"
  from encodePdf_subject [OF enc] show "\<exists>finalMessage. subject stored = Some (flag @ finalMessage)"
    by (rule conjunct1)
  from encodePdf_subject [OF enc] show "otherContent stored = otherContent carrier"
    by (rule conjunct2)
next
  show "flag = ascii ''STEGAPP_HIDDEN:''" by (rule flag_def)
qed

lemma hello_latin1: "\<not> list_ex (\<lambda>c. 255 < unat c) hello"
  unfolding hello_def by (rule ascii_latin1)

lemma truthyPassword_demo: "truthyPassword (Some demoPassword) = Some demoPassword"
  by (simp add: demoPassword_def ascii_def)

theorem decodePdf_errors_witness:
  "decodePdf demoPlatform demoPdf None = Inl (Error noHiddenMessageMsg) \<and>
   decodePdf demoPlatform (demoPdf\<lparr>subject := Some hello\<rparr>) None = Inl (Error noHiddenMessageMsg) \<and>
   decodePdf demoPlatform (demoPdf\<lparr>subject := Some (flag @ ascii ''!'')\<rparr>) None =
     Inl (Error corruptedEncodingMsg) \<and>
   (\<exists>finalMessage. subject (demoPdf\<lparr>subject := Some (flag @ ascii ''aGk='')\<rparr>) = Some (flag @ finalMessage))"
proof -
  have absent: "subject demoPdf = None"
    by (simp add: demoPdf_def)
  have other: "subject (demoPdf\<lparr>subject := Some hello\<rparr>) = Some hello" "\<not> prefix flag hello"
    by (simp_all add: hello_def flag_def ascii_def)
  have bad: "subject (demoPdf\<lparr>subject := Some (flag @ ascii ''!'')\<rparr>) = Some (flag @ ascii ''!'')"
    "atob (ascii ''!'') = Inl (DOMException ''InvalidCharacterError'')"
    by (simp, code_simp)
  have enc: "encodePdf demoPlatform demoPdf (ascii ''hi'') None =
      Inr (demoPdf\<lparr>subject := Some (flag @ ascii ''aGk='')\<rparr>)"
    by code_simp
  from decodePdf_errors [where pdfDoc = demoPdf and P = demoPlatform and password = None] absent
  have 1: "decodePdf demoPlatform demoPdf None = Inl (Error noHiddenMessageMsg)"
    by blast
  from decodePdf_errors [where pdfDoc = "demoPdf\<lparr>subject := Some hello\<rparr>"
      and P = demoPlatform and password = None] other
  have 2: "decodePdf demoPlatform (demoPdf\<lparr>subject := Some hello\<rparr>) None = Inl (Error noHiddenMessageMsg)"
    by blast
  from decodePdf_errors [where pdfDoc = "demoPdf\<lparr>subject := Some (flag @ ascii ''!'')\<rparr>"
      and rawData = "ascii ''!''" and e = "DOMException ''InvalidCharacterError''"
      and P = demoPlatform and password = None] bad
  have 3: "decodePdf demoPlatform (demoPdf\<lparr>subject := Some (flag @ ascii ''!'')\<rparr>) None =
      Inl (Error corruptedEncodingMsg)"
    by blast
  from decodePdf_errors [where P = demoPlatform and carrier = demoPdf and plain = "ascii ''hi''"
      and pw = None and stored = "demoPdf\<lparr>subject := Some (flag @ ascii ''aGk='')\<rparr>"] enc
  have 4: "\<exists>finalMessage. subject (demoPdf\<lparr>subject := Some (flag @ ascii ''aGk='')\<rparr>) = Some (flag @ finalMessage)"
    by blast
  from 1 2 3 4 show ?thesis by (intro conjI)
qed

text \<open>
  C10. Without a password \<open>encodePdf\<close> passes the message itself to \<open>btoa\<close>: it throws
  the \<open>InvalidCharacterError\<close> exactly when some character is above U+00FF and stores the
  data otherwise. With a password the text passed to \<open>btoa\<close> is the envelope, which is
  ASCII, so every message for which encryption succeeds is stored.
\<close>

theorem encodePdf_plaintext_latin1_only:
  "(truthyPassword password = None \<longrightarrow>
      (list_ex (\<lambda>c. 255 < unat c) message \<longrightarrow>
         encodePdf P pdfDoc message password = Inl (DOMException ''InvalidCharacterError'')) \<and>
      (\<not> list_ex (\<lambda>c. 255 < unat c) message \<longrightarrow>
         (\<exists>finalMessage. encodePdf P pdfDoc message password =
            Inr (pdfDoc\<lparr>subject := Some (flag @ finalMessage)\<rparr>)))) \<and>
   (truthyPassword password = Some p \<and> encryptMessage P message p = Inr envelope \<longrightarrow>
      (\<exists>finalMessage. encodePdf P pdfDoc message password =
         Inr (pdfDoc\<lparr>subject := Some (flag @ finalMessage)\<rparr>)))"
proof (intro conjI impI)
  assume "truthyPassword password = None" and "list_ex (\<lambda>c. 255 < unat c) message"
  then show "encodePdf P pdfDoc message password = Inl (DOMException ''InvalidCharacterError'')"
    by (simp add: encodePdf_plain btoa_rejects)
next
  assume "truthyPassword password = None" and "\<not> list_ex (\<lambda>c. 255 < unat c) message"
  then show "\<exists>finalMessage. encodePdf P pdfDoc message password =
      Inr (pdfDoc\<lparr>subject := Some (flag @ finalMessage)\<rparr>)"
    by (simp add: encodePdf_plain atob_btoa(1)) (rule exI, rule refl)
next
  assume a: "truthyPassword password = Some p \<and> encryptMessage P message p = Inr envelope"
  then obtain d where "envelope = stringifyBundle (getRandomValues P SALT_LENGTH) (getRandomValues P IV_LENGTH) d"
    using encryptMessage_envelope by blast
  then have "\<not> list_ex (\<lambda>c. 255 < unat c) envelope"
    by (simp add: stringifyBundle_latin1)
  with a show "\<exists>finalMessage. encodePdf P pdfDoc message password =
      Inr (pdfDoc\<lparr>subject := Some (flag @ finalMessage)\<rparr>)"
    by (simp add: encodePdf_password atob_btoa(1)) (rule exI, rule refl)
qed

lemma encryptMessage_demo:
  "\<exists>envelope. encryptMessage demoPlatform message demoPassword = Inr envelope"
  by (simp add: encryptMessage_def encryptAttempt_def bindE_def Let_def getPasswordKey_def
      deriveKey_def demoPlatform_def)

theorem encodePdf_plaintext_latin1_only_witness:
  "encodePdf demoPlatform demoPdf [0x100] None = Inl (DOMException ''InvalidCharacterError'') \<and>
   (\<exists>finalMessage. encodePdf demoPlatform demoPdf hello None =
      Inr (demoPdf\<lparr>subject := Some (flag @ finalMessage)\<rparr>)) \<and>
   (\<exists>finalMessage. encodePdf demoPlatform demoPdf [0x100] (Some demoPassword) =
      Inr (demoPdf\<lparr>subject := Some (flag @ finalMessage)\<rparr>))"
proof -
  have none: "truthyPassword None = None" by simp
  have wide: "list_ex (\<lambda>c. 255 < unat c) [0x100 :: 16 word]" by simp
  from encryptMessage_demo [of "[0x100]"] obtain envelope
    where env: "encryptMessage demoPlatform [0x100] demoPassword = Inr envelope" ..
  from encodePdf_plaintext_latin1_only [where password = None and message = "[0x100]"
      and P = demoPlatform and pdfDoc = demoPdf] none wide
  have 1: "encodePdf demoPlatform demoPdf [0x100] None = Inl (DOMException ''InvalidCharacterError'')"
    by blast
  from encodePdf_plaintext_latin1_only [where password = None and message = hello
      and P = demoPlatform and pdfDoc = demoPdf] none hello_latin1
  have 2: "\<exists>finalMessage. encodePdf demoPlatform demoPdf hello None =
      Inr (demoPdf\<lparr>subject := Some (flag @ finalMessage)\<rparr>)"
    by blast
  from encodePdf_plaintext_latin1_only [where password = "Some demoPassword" and message = "[0x100]"
      and P = demoPlatform and pdfDoc = demoPdf and p = demoPassword and envelope = envelope]
    truthyPassword_demo env
  have 3: "\<exists>finalMessage. encodePdf demoPlatform demoPdf [0x100] (Some demoPassword) =
      Inr (demoPdf\<lparr>subject := Some (flag @ finalMessage)\<rparr>)"
    by blast
  from 1 2 3 show ?thesis by (intro conjI)
qed

section \<open>Properties of the authenticated encryption\<close>

lemma getProp_bundle:
  "getProp (bundleJson s iv d) ''s'' = Inr (Some (JArray (map (\<lambda>b. JNumber (uint b)) s)))"
  "getProp (bundleJson s iv d) ''iv'' = Inr (Some (JArray (map (\<lambda>b. JNumber (uint b)) iv)))"
  "getProp (bundleJson s iv d) ''d'' = Inr (Some (JArray (map (\<lambda>b. JNumber (uint b)) d)))"
  by (simp_all add: bundleJson_def ascii_def)

lemma newUint8Array_numbers:
  "newUint8Array P (Some (JArray (map (\<lambda>b. JNumber (uint b)) bs))) = Inr bs"
proof -
  have "list_all isNumber (map (\<lambda>b. JNumber (uint b)) bs)"
    by (simp add: list_all_iff)
  moreover have "map toUint8 (map (\<lambda>b. JNumber (uint b)) bs) = bs"
    by (induction bs) simp_all
  ultimately show ?thesis by (simp add: newUint8Array_def)
qed

lemma decryptAttempt_bundle:
  assumes "jsonParse P encryptedJson = Some (bundleJson s iv d)"
  shows "decryptAttempt P encryptedJson password =
     bindE (getPasswordKey P password) (\<lambda>passwordKey.
     bindE (deriveKey P passwordKey s) (\<lambda>aesKey.
     bindE (aesGcmDecrypt P aesKey iv d) (\<lambda>decryptedContent.
     Inr (textDecode P decryptedContent))))"
  unfolding decryptAttempt_def assms option.case getProp_bundle
  by (simp add: bindE_def falsyProp_def newUint8Array_numbers)

lemma decryptAttempt_not_json:
  "jsonParse P encryptedJson = None \<Longrightarrow>
   decryptAttempt P encryptedJson password = Inl (Error invalidPayloadMsg)"
  by (simp add: decryptAttempt_def)

lemma decryptMessage_not_json:
  "jsonParse P encryptedJson = None \<Longrightarrow>
   decryptMessage P encryptedJson password = Inl (Error decryptionFailedMsg)"
  by (simp add: decryptMessage_def decryptAttempt_not_json)





lemma jsonParse_demoEnvelope:
  "jsonParse demoPlatform demoEnvelope = Some (bundleJson demoSalt demoIv demoCipher)"
  by (simp add: demoPlatform_def)




text \<open>
  C7 does not hold of the code. \<open>decryptMessage\<close> throws its two envelope errors inside
  the \<open>try\<close> whose \<open>catch\<close> replaces every exception that is not an \<open>OperationError\<close>
  by the generic failure: a text that is not JSON and an object without the three fields
  both end as \<open>Decryption failed\<close>.
\<close>

theorem malformed_envelope_reported_as_generic_failure:
  "decryptAttempt demoPlatform hello demoPassword = Inl (Error invalidPayloadMsg) \<and>
   decryptMessage demoPlatform hello demoPassword = Inl (Error decryptionFailedMsg) \<and>
   decryptAttempt demoPlatform (ascii ''{}'') demoPassword = Inl (Error corruptedHeaderMsg) \<and>
   decryptMessage demoPlatform (ascii ''{}'') demoPassword = Inl (Error decryptionFailedMsg) \<and>
   decryptionFailedMsg \<noteq> invalidPayloadMsg \<and> decryptionFailedMsg \<noteq> corruptedHeaderMsg"
proof -
  have parse: "jsonParse demoPlatform hello = None"
    "jsonParse demoPlatform (ascii ''{}'') = Some (JObject [])"
    by (simp_all add: demoPlatform_def demoEnvelope_def stringifyBundle_def quoted_def ascii_def
        hello_def)
  have empty: "decryptAttempt demoPlatform (ascii ''{}'') demoPassword = Inl (Error corruptedHeaderMsg)"
    unfolding decryptAttempt_def parse option.case
    by (simp add: bindE_def falsyProp_def)
  then have "decryptMessage demoPlatform (ascii ''{}'') demoPassword = Inl (Error decryptionFailedMsg)"
    by (simp add: decryptMessage_def)
  with parse(1) empty show ?thesis
    by (simp add: decryptAttempt_not_json decryptMessage_not_json decryptionFailedMsg_def
        invalidPayloadMsg_def corruptedHeaderMsg_def)
qed

section \<open>Properties of the tamper simulator\<close>

lemma slotNumber_Suc:
  "slotNumber (Suc n) = slotNumber n + (if Suc n mod 4 = 0 then 0 else 1)"
  unfolding slotNumber_def by (rule colour_count_Suc)

lemma slotNumber_mono: "i \<le> n \<Longrightarrow> slotNumber i \<le> slotNumber n"
  unfolding slotNumber_def by (rule colour_count_mono)

lemma slotNumber_values: "slotNumber 56 = 42" "slotNumber 57 = 43"
  by (simp_all add: slotNumber_def)

lemma corruptLoop_stop:
  "\<not> (i < length data \<and> \<not> corrupted) \<Longrightarrow> corruptLoop data i v corrupted = data"
  by (subst corruptLoop.simps) (simp only: if_False)

lemma corruptLoop_alpha:
  "i < length data \<Longrightarrow> (i + 1) mod 4 = 0 \<Longrightarrow>
   corruptLoop data i v False = corruptLoop data (i + 1) v False"
  by (subst corruptLoop.simps) simp

lemma corruptLoop_flip:
  "i < length data \<Longrightarrow> (i + 1) mod 4 \<noteq> 0 \<Longrightarrow> 42 < v \<Longrightarrow>
   corruptLoop data i v False = data[i := data ! i XOR 1]"
  by (subst corruptLoop.simps) (simp add: corruptLoop_stop)

lemma corruptLoop_skip:
  "i < length data \<Longrightarrow> (i + 1) mod 4 \<noteq> 0 \<Longrightarrow> \<not> 42 < v \<Longrightarrow>
   corruptLoop data i v False = corruptLoop data (i + 1) (v + 1) False"
  by (subst corruptLoop.simps) simp

lemma corruptLoop_closed:
  "i \<le> 57 \<Longrightarrow>
   corruptLoop data i (slotNumber i) False = (if 57 < length data then flipLsbAt 57 data else data)"
proof (induction "57 - i" arbitrary: i)
  case 0
  then have i: "i = 57" by simp
  show ?case
    by (cases "57 < length data")
       (simp_all add: i slotNumber_values corruptLoop_flip corruptLoop_stop flipLsbAt_def)
next
  case (Suc m)
  then have lt: "i < 57" and le: "Suc i \<le> 57" and m: "m = 57 - Suc i" by simp_all
  from lt have "i \<le> 56" by simp
  from slotNumber_mono [OF this] have small: "\<not> 42 < slotNumber i"
    by (simp add: slotNumber_values)
  note IH = Suc.hyps(1) [OF m le]
  show ?case
  proof (cases "i < length data")
    case False
    with lt show ?thesis by (simp add: corruptLoop_stop)
  next
    case True
    show ?thesis
    proof (cases "(i + 1) mod 4 = 0")
      case alpha: True
      then have "slotNumber (Suc i) = slotNumber i" by (simp add: slotNumber_Suc)
      with IH True alpha show ?thesis by (simp add: corruptLoop_alpha)
    next
      case colour: False
      then have "slotNumber (Suc i) = slotNumber i + 1" by (simp add: slotNumber_Suc)
      with IH True colour small show ?thesis by (simp add: corruptLoop_skip)
    qed
  qed
qed

lemma corruptImage_closed:
  "corruptImage data = Inr (if 57 < length data then flipLsbAt 57 data else data)"
  using corruptLoop_closed [of 0 data] by (simp add: corruptImage_def slotNumber_def)

lemma slotsFrom_update_below:
  "i < k \<Longrightarrow> slotsFrom k (data[i := x]) = slotsFrom k data"
  by (simp add: slotsFrom_def)

lemma slotsFrom_update:
  assumes "i < length data" and "(i + 1) mod 4 \<noteq> 0"
  shows "k \<le> i \<Longrightarrow>
    slotsFrom k (data[i := x]) = (slotsFrom k data)[slotNumber i - slotNumber k := x]"
proof (induction "i - k" arbitrary: k)
  case 0
  then have k: "k = i" by simp
  show ?case
    using assms by (simp add: k slotsFrom_colour slotsFrom_update_below)
next
  case (Suc m)
  then have lt: "k < i" and le: "Suc k \<le> i" and m: "m = i - Suc k" by simp_all
  from lt assms(1) have inside: "k < length data" by simp
  note IH = Suc.hyps(1) [OF m le]
  show ?case
  proof (cases "(k + 1) mod 4 = 0")
    case True
    then have "slotNumber (Suc k) = slotNumber k" by (simp add: slotNumber_Suc)
    with IH True inside show ?thesis by (simp add: slotsFrom_alpha)
  next
    case False
    then have step: "slotNumber (Suc k) = Suc (slotNumber k)" by (simp add: slotNumber_Suc)
    with slotNumber_mono [OF le]
    have "slotNumber i - slotNumber k = Suc (slotNumber i - slotNumber (Suc k))" by simp
    with IH False inside lt show ?thesis by (simp add: slotsFrom_colour)
  qed
qed

lemma slotNumber_zero: "slotNumber 0 = 0"
  by (simp add: slotNumber_def)

lemma slots_update_57:
  "57 < length data \<Longrightarrow> slots (data[57 := x]) = (slots data)[43 := x]"
  using slotsFrom_update [of 57 data 0 x]
  by (simp add: slots_def slotNumber_values slotNumber_zero)

lemma slots_nth_43:
  assumes "57 < length data"
  shows "slots data ! 43 = data ! 57"
proof -
  have "43 < length (slots data)"
    using assms by (simp add: length_slots)
  then have "(slots data)[43 := data ! 57] ! 43 = data ! 57"
    by (rule nth_list_update_eq)
  moreover have "(slots data)[43 := data ! 57] = slots data"
    using slots_update_57 [OF assms, of "data ! 57"] by simp
  ultimately show ?thesis by simp
qed

lemma slots_flip: "57 < length data \<Longrightarrow> slots (flipLsbAt 57 data) = flipLsbAt 43 (slots data)"
  by (simp add: flipLsbAt_def slots_update_57 slots_nth_43)

lemma corruptAudio_found:
  "findDataChunk buf 12 = Inr (Some (offset, chunkSize)) \<Longrightarrow>
   corruptAudio buf = Inr (if 50 < chunkSize then flipLsbAt (offset + 40) buf else buf)"
  by (simp add: corruptAudio_def flipLsbAt_def)

lemma corruptPdf_prefixed:
  assumes "subject pdfDoc = Some (flag @ rawData)"
  shows "corruptPdf pdfDoc =
    Inr (if 10 < length rawData
         then pdfDoc\<lparr>subject := Some (flag @ rawData
                [length rawData div 2 := (if rawData ! (length rawData div 2) = 65 then 66 else 65)])\<rparr>
         else pdfDoc)"
proof (cases "10 < length rawData")
  case False
  with assms show ?thesis
    by (simp add: corruptPdf_def rawData_of_subject flag_nonempty Let_def)
next
  case True
  then have idx: "length rawData div 2 < length rawData" by simp
  have "take (length rawData div 2) rawData @
      (if [rawData ! (length rawData div 2)] = ascii ''A'' then ascii ''B'' else ascii ''A'') @
      drop (length rawData div 2 + 1) rawData =
      rawData[length rawData div 2 := (if rawData ! (length rawData div 2) = 65 then 66 else 65)]"
    using idx by (simp add: upd_conv_take_nth_drop ascii_def)
  with assms True show ?thesis
    by (simp add: corruptPdf_def rawData_of_subject flag_nonempty Let_def)
qed

lemma flipLsbAt_effect:
  "i < length buf \<Longrightarrow> lsb (flipLsbAt i buf ! i) = (\<not> lsb (buf ! i))"
  "i < length buf \<Longrightarrow> drop_bit 1 (flipLsbAt i buf ! i) = drop_bit 1 (buf ! i)"
  "j \<noteq> i \<Longrightarrow> flipLsbAt i buf ! j = buf ! j"
  "length (flipLsbAt i buf) = length buf"
  using high_bits_flip by (simp_all add: flipLsbAt_def lsb_flip del: One_nat_def)

lemma encoded_image_long:
  assumes "finalMessageFor P message password = Inr fm" and "fm \<noteq> []"
    and "encodeImage P data message password = (art, Inr out)"
  shows "57 < length art"
proof -
  from assms(2) have "48 \<le> 32 + 16 * length fm" by (cases fm) simp_all
  with length_frame_ge [of fm] have big: "48 \<le> length (frame fm)" by simp
  show ?thesis
  proof (cases "length data * 3 < 4 * length (frame fm)")
    case True
    with assms(1,3) show ?thesis by (simp add: encodeImage_capacity)
  next
    case False
    with assms(1,3) have "art = encodeLoop (frame fm) data 0 0"
      by (simp add: encodeImage_success)
    with False big show ?thesis by (simp add: length_encodeLoop)
  qed
qed

lemma take_header_flip: "32 \<le> i \<Longrightarrow> take 32 (flipLsbAt i xs) = take 32 xs"
  by (simp add: flipLsbAt_def)

lemma audio_header_flip:
  "take 32 (drop offset (flipLsbAt (offset + 40) buf)) = take 32 (drop offset buf)"
  by (simp add: flipLsbAt_def drop_update_swap [of offset "offset + 40"])

lemma corruptImage_header:
  assumes "corruptImage data = Inr tampered"
  shows "take 32 (slots tampered) = take 32 (slots data)"
proof (cases "57 < length data")
  case True
  with assms have "tampered = flipLsbAt 57 data" by (simp add: corruptImage_closed)
  with True show ?thesis by (simp add: slots_flip take_header_flip)
next
  case False
  with assms show ?thesis by (simp add: corruptImage_closed)
qed

lemma corruptAudio_header:
  assumes "findDataChunk buf 12 = Inr (Some (offset, chunkSize))"
    and "corruptAudio buf = Inr tampered"
  shows "take 32 (drop offset tampered) = take 32 (drop offset buf)"
  using assms(2) audio_header_flip [of offset buf]
  by (simp add: corruptAudio_found [OF assms(1)] split: if_splits)

lemma corruptPdf_not_artifact:
  "subject pdfDoc = None \<or> (\<exists>subj. subject pdfDoc = Some subj \<and> \<not> prefix flag subj) \<Longrightarrow>
   corruptPdf pdfDoc = Inr pdfDoc"
  by (auto simp: corruptPdf_def)

lemma encodeImage_result:
  assumes "finalMessageFor P message password = Inr fm"
    and "encodeImage P carrier message password = (art, Inr out)"
  shows "art = encodeLoop (frame fm) carrier 0 0 \<and> 4 * length (frame fm) \<le> length carrier * 3"
proof (cases "length carrier * 3 < 4 * length (frame fm)")
  case True
  with assms show ?thesis by (simp add: encodeImage_capacity)
next
  case False
  with assms show ?thesis by (simp add: encodeImage_success)
qed

lemma encodeAudio_result:
  assumes "findDataChunk wav 12 = Inr (Some (offset, chunkSize))"
    and "finalMessageFor P message password = Inr fm"
    and "encodeAudio P wav message password = (art, Inr out)"
  shows "art = audioWrite (frame fm) offset wav \<and> length (frame fm) \<le> chunkSize"
proof (cases "chunkSize < length (frame fm)")
  case True
  with assms show ?thesis by (simp add: encodeAudio_capacity)
next
  case False
  with assms show ?thesis by (simp add: encodeAudio_success)
qed

lemma header_of_encoded_image:
  assumes small: "16 * length fm < 2 ^ 32"
    and cap: "4 * length (frame fm) \<le> length data * 3"
  shows "parseInt2 (fst (readLoop 32 (encodeLoop (frame fm) data 0 0) 0 [])) = Some (16 * length fm)"
proof -
  let ?D = "encodeLoop (frame fm) data 0 0"
  note parts = frame_parts [OF small]
  have written: "take (32 + 16 * length fm) (map lsb (slots ?D)) = frame fm"
    using read_written_image [OF cap] by (simp add: parts(3))
  have "fst (readLoop 32 ?D 0 []) = take 32 (map lsb (slots ?D))"
    using readLoop_slots [of 32 ?D 0 "[]"] by (simp add: slots_def)
  also have "\<dots> = take 32 (take (32 + 16 * length fm) (map lsb (slots ?D)))"
    by (simp add: min_def)
  finally have "fst (readLoop 32 ?D 0 []) = take 32 (frame fm)"
    by (simp only: written)
  then show ?thesis by (simp add: parts(4))
qed

lemma header_of_encoded_audio:
  assumes found: "findDataChunk wav 12 = Inr (Some (offset, chunkSize))"
    and small: "16 * length fm < 2 ^ 32"
    and fits: "length (frame fm) \<le> chunkSize"
  shows "parseInt2 (map (sampleBit (audioWrite (frame fm) offset wav) offset chunkSize) [0..<32]) =
     Some (16 * length fm)"
proof -
  note parts = frame_parts [OF small]
  have inside: "offset + chunkSize \<le> length wav"
    using findDataChunk_bounds [OF found] by simp
  have "map (sampleBit (audioWrite (frame fm) offset wav) offset chunkSize) [0..<32] = take 32 (frame fm)"
    using sampleBits_audioWrite [OF inside fits, of 32 0] by (simp add: parts(3))
  then show ?thesis by (simp only: parts(4))
qed

text \<open>
  C5 as amended. \<open>corruptImage\<close> flips the least-significant bit of channel byte 57 (slot
  43) when the image has more than 57 channel bytes and returns it unchanged otherwise;
  \<open>corruptAudio\<close> flips the least-significant bit of byte 40 of the \<open>data\<close> chunk when
  the chunk has more than 50 bytes and returns the buffer unchanged otherwise;
  \<open>corruptPdf\<close> replaces the character at the midpoint of the base64 text by a
  different one when that text has more than 10 characters and returns the document
  unchanged otherwise. In every case the 32 header slots (header bytes, marker) keep
  their values, and a flip changes one bit of one byte and nothing else. In an image or
  audio artifact that carries a non-empty text the header reads \<open>16 * length fm\<close>, and
  slot 43 and chunk byte 40 lie before \<open>32 + 16 * length fm\<close>: strictly inside the body;
  such an image always has more than 57 channel bytes.
\<close>

theorem corrupt_flips_one_body_bit:
  "corruptImage data = Inr (if 57 < length data then flipLsbAt 57 data else data) \<and>
   (57 < length data \<longrightarrow> slots (flipLsbAt 57 data) = flipLsbAt 43 (slots data)) \<and>
   (corruptImage data = Inr tampered \<longrightarrow> take 32 (slots tampered) = take 32 (slots data)) \<and>
   (findDataChunk buf 12 = Inr (Some (offset, chunkSize)) \<longrightarrow>
      corruptAudio buf = Inr (if 50 < chunkSize then flipLsbAt (offset + 40) buf else buf) \<and>
      (corruptAudio buf = Inr tamperedWav \<longrightarrow>
         take 32 (drop offset tamperedWav) = take 32 (drop offset buf))) \<and>
   (subject pdfDoc = Some (flag @ rawData) \<longrightarrow>
      corruptPdf pdfDoc =
        Inr (if 10 < length rawData
             then pdfDoc\<lparr>subject := Some (flag @ rawData
                    [length rawData div 2 := (if rawData ! (length rawData div 2) = 65 then 66 else 65)])\<rparr>
             else pdfDoc) \<and>
      (if rawData ! (length rawData div 2) = 65 then 66 else 65) \<noteq> rawData ! (length rawData div 2) \<and>
      (10 < length rawData \<longrightarrow> length rawData div 2 < length rawData)) \<and>
   (subject otherDoc = None \<or> (\<exists>subj. subject otherDoc = Some subj \<and> \<not> prefix flag subj) \<longrightarrow>
      corruptPdf otherDoc = Inr otherDoc) \<and>
   (i < length bytes \<longrightarrow>
      lsb (flipLsbAt i bytes ! i) = (\<not> lsb (bytes ! i)) \<and>
      drop_bit 1 (flipLsbAt i bytes ! i) = drop_bit 1 (bytes ! i) \<and>
      length (flipLsbAt i bytes) = length bytes \<and>
      (\<forall>j. j \<noteq> i \<longrightarrow> flipLsbAt i bytes ! j = bytes ! j)) \<and>
   (finalMessageFor P message password = Inr fm \<and> fm \<noteq> [] \<and> 16 * length fm < 2 ^ 32 \<longrightarrow>
      (encodeImage P carrier message password = (art, Inr out) \<longrightarrow>
         57 < length art \<and>
         parseInt2 (fst (readLoop 32 art 0 [])) = Some (16 * length fm) \<and>
         43 < 32 + 16 * length fm) \<and>
      (findDataChunk wav 12 = Inr (Some (wavStart, wavSize)) \<and>
       encodeAudio P wav message password = (wavArt, Inr wavOut) \<longrightarrow>
         findDataChunk wavArt 12 = Inr (Some (wavStart, wavSize)) \<and>
         parseInt2 (map (sampleBit wavArt wavStart wavSize) [0..<32]) = Some (16 * length fm) \<and>
         40 < 32 + 16 * length fm))"
proof -
  have image: "corruptImage data = Inr (if 57 < length data then flipLsbAt 57 data else data)"
    by (rule corruptImage_closed)
  have slot: "57 < length data \<longrightarrow> slots (flipLsbAt 57 data) = flipLsbAt 43 (slots data)"
    by (simp add: slots_flip)
  have imageHeader: "corruptImage data = Inr tampered \<longrightarrow>
      take 32 (slots tampered) = take 32 (slots data)"
    using corruptImage_header [of data tampered] by blast
  have audio: "findDataChunk buf 12 = Inr (Some (offset, chunkSize)) \<longrightarrow>
      corruptAudio buf = Inr (if 50 < chunkSize then flipLsbAt (offset + 40) buf else buf) \<and>
      (corruptAudio buf = Inr tamperedWav \<longrightarrow>
         take 32 (drop offset tamperedWav) = take 32 (drop offset buf))"
    using corruptAudio_found [of buf offset chunkSize] corruptAudio_header [of buf offset chunkSize tamperedWav]
    by blast
  have pdf: "subject pdfDoc = Some (flag @ rawData) \<longrightarrow>
      corruptPdf pdfDoc =
        Inr (if 10 < length rawData
             then pdfDoc\<lparr>subject := Some (flag @ rawData
                    [length rawData div 2 := (if rawData ! (length rawData div 2) = 65 then 66 else 65)])\<rparr>
             else pdfDoc) \<and>
      (if rawData ! (length rawData div 2) = 65 then 66 else 65) \<noteq> rawData ! (length rawData div 2) \<and>
      (10 < length rawData \<longrightarrow> length rawData div 2 < length rawData)"
  proof (intro impI conjI)
    assume "subject pdfDoc = Some (flag @ rawData)"
    then show "corruptPdf pdfDoc =
        Inr (if 10 < length rawData
             then pdfDoc\<lparr>subject := Some (flag @ rawData
                    [length rawData div 2 := (if rawData ! (length rawData div 2) = 65 then 66 else 65)])\<rparr>
             else pdfDoc)"
      by (rule corruptPdf_prefixed)
  next
    show "(if rawData ! (length rawData div 2) = 65 then 66 else 65) \<noteq> rawData ! (length rawData div 2)"
      by simp
  next
    assume "10 < length rawData"
    then show "length rawData div 2 < length rawData" by simp
  qed
  have noPdf: "subject otherDoc = None \<or> (\<exists>subj. subject otherDoc = Some subj \<and> \<not> prefix flag subj) \<longrightarrow>
      corruptPdf otherDoc = Inr otherDoc"
    using corruptPdf_not_artifact [of otherDoc] by blast
  have flip: "i < length bytes \<longrightarrow>
      lsb (flipLsbAt i bytes ! i) = (\<not> lsb (bytes ! i)) \<and>
      drop_bit 1 (flipLsbAt i bytes ! i) = drop_bit 1 (bytes ! i) \<and>
      length (flipLsbAt i bytes) = length bytes \<and>
      (\<forall>j. j \<noteq> i \<longrightarrow> flipLsbAt i bytes ! j = bytes ! j)"
    using flipLsbAt_effect [where i = i and buf = bytes] by blast
  have body: "finalMessageFor P message password = Inr fm \<and> fm \<noteq> [] \<and> 16 * length fm < 2 ^ 32 \<longrightarrow>
      (encodeImage P carrier message password = (art, Inr out) \<longrightarrow>
         57 < length art \<and>
         parseInt2 (fst (readLoop 32 art 0 [])) = Some (16 * length fm) \<and>
         43 < 32 + 16 * length fm) \<and>
      (findDataChunk wav 12 = Inr (Some (wavStart, wavSize)) \<and>
       encodeAudio P wav message password = (wavArt, Inr wavOut) \<longrightarrow>
         findDataChunk wavArt 12 = Inr (Some (wavStart, wavSize)) \<and>
         parseInt2 (map (sampleBit wavArt wavStart wavSize) [0..<32]) = Some (16 * length fm) \<and>
         40 < 32 + 16 * length fm)"
  proof (intro impI conjI; elim conjE)
    assume fm: "finalMessageFor P message password = Inr fm" and ne: "fm \<noteq> []"
      and small: "16 * length fm < 2 ^ 32"
    from ne show "43 < 32 + 16 * length fm" "40 < 32 + 16 * length fm"
      by (cases fm; simp)+
    {
      assume enc: "encodeImage P carrier message password = (art, Inr out)"
      from encoded_image_long [OF fm ne enc] show "57 < length art" .
      from encodeImage_result [OF fm enc] header_of_encoded_image [OF small, of carrier]
      show "parseInt2 (fst (readLoop 32 art 0 [])) = Some (16 * length fm)"
        by simp
    }
    {
      assume found: "findDataChunk wav 12 = Inr (Some (wavStart, wavSize))"
        and enc: "encodeAudio P wav message password = (wavArt, Inr wavOut)"
      note res = encodeAudio_result [OF found fm enc]
      from res findDataChunk_audioWrite [OF found, of "frame fm"]
      show "findDataChunk wavArt 12 = Inr (Some (wavStart, wavSize))"
        by simp
      from res header_of_encoded_audio [OF found small]
      show "parseInt2 (map (sampleBit wavArt wavStart wavSize) [0..<32]) = Some (16 * length fm)"
        by simp
    }
  qed
  from image slot imageHeader audio pdf noPdf flip body show ?thesis
    by (intro conjI)
qed

theorem corrupt_flips_one_body_bit_witness:
  "corruptImage (replicate 64 0) = Inr (flipLsbAt 57 (replicate 64 0)) \<and>
   take 32 (slots (flipLsbAt 57 (replicate 64 0))) = take 32 (slots (replicate 64 0)) \<and>
   corruptAudio (demoWav 60) = Inr (flipLsbAt (20 + 40) (demoWav 60)) \<and>
   corruptPdf demoArtifactPdf =
     Inr (demoArtifactPdf\<lparr>subject := Some (flag @ ascii ''aGVsbG8gA29ybGQ='')\<rparr>) \<and>
   corruptPdf demoPdf = Inr demoPdf \<and>
   lsb (flipLsbAt 0 [6] ! 0) = (\<not> lsb ([6 :: byte] ! 0)) \<and>
   57 < length (encodeLoop (frame (ascii ''a'')) (replicate 64 0) 0 0) \<and>
   parseInt2 (fst (readLoop 32 (encodeLoop (frame (ascii ''a'')) (replicate 64 0) 0 0) 0 [])) =
     Some (16 * length (ascii ''a'')) \<and>
   parseInt2 (map (sampleBit (audioWrite (frame (ascii ''a'')) 20 (demoWav 60)) 20 60) [0..<32]) =
     Some (16 * length (ascii ''a''))"
proof -
  let ?art = "encodeLoop (frame (ascii ''a'')) (replicate 64 0) 0 0"
  let ?wavArt = "audioWrite (frame (ascii ''a'')) 20 (demoWav 60)"
  note t = corrupt_flips_one_body_bit [where data = "replicate 64 0"
      and tampered = "flipLsbAt 57 (replicate 64 0)" and buf = "demoWav 60"
      and offset = 20 and chunkSize = 60 and tamperedWav = "flipLsbAt (20 + 40) (demoWav 60)"
      and pdfDoc = demoArtifactPdf and rawData = "ascii ''aGVsbG8gd29ybGQ=''"
      and otherDoc = demoPdf and i = 0 and bytes = "[6]" and P = demoPlatform
      and message = "ascii ''a''" and password = None and fm = "ascii ''a''"
      and carrier = "replicate 64 0" and art = ?art and out = ?art
      and wav = "demoWav 60" and wavStart = 20 and wavSize = 60
      and wavArt = ?wavArt and wavOut = ?wavArt]
  have small: "16 * length (ascii ''a'') < (2 :: nat) ^ 32" by (simp add: ascii_def)
  have len: "length (frame (ascii ''a'')) = 48"
    using frame_parts(3) [OF small] by (simp add: ascii_def)
  have found: "findDataChunk (demoWav 60) 12 = Inr (Some (20, 60))"
    by (simp add: findDataChunk_demoWav)
  have h3: "subject demoArtifactPdf = Some (flag @ ascii ''aGVsbG8gd29ybGQ='')"
    by (simp add: demoArtifactPdf_def)
  have h4: "subject demoPdf = None \<or> (\<exists>subj. subject demoPdf = Some subj \<and> \<not> prefix flag subj)"
    by (simp add: demoPdf_def)
  have h5: "0 < length [6 :: byte]" by simp
  have h6: "finalMessageFor demoPlatform (ascii ''a'') None = Inr (ascii ''a'') \<and>
      ascii ''a'' \<noteq> [] \<and> 16 * length (ascii ''a'') < (2 :: nat) ^ 32"
    using small by (simp add: finalMessageFor_None) (simp add: ascii_def)
  have h7: "encodeImage demoPlatform (replicate 64 0) (ascii ''a'') None = (?art, Inr ?art)"
    by (rule encodeImage_success [OF finalMessageFor_None]) (simp add: len)
  have h8: "findDataChunk (demoWav 60) 12 = Inr (Some (20, 60)) \<and>
      encodeAudio demoPlatform (demoWav 60) (ascii ''a'') None = (?wavArt, Inr ?wavArt)"
    using found encodeAudio_success [OF found finalMessageFor_None, where P = demoPlatform]
    by (simp add: len)
  have c1: "corruptImage (replicate 64 0) = Inr (flipLsbAt 57 (replicate 64 0))"
    using t [THEN conjunct1] by simp
  note c3 = t [THEN conjunct2, THEN conjunct2, THEN conjunct1, THEN mp, OF c1]
  note c4 = t [THEN conjunct2, THEN conjunct2, THEN conjunct2, THEN conjunct1, THEN mp, OF found,
      THEN conjunct1]
  have c4': "corruptAudio (demoWav 60) = Inr (flipLsbAt (20 + 40) (demoWav 60))"
    using c4 by simp
  note c5 = t [THEN conjunct2, THEN conjunct2, THEN conjunct2, THEN conjunct2, THEN conjunct1,
      THEN mp, OF h3, THEN conjunct1]
  have c5': "corruptPdf demoArtifactPdf =
      Inr (demoArtifactPdf\<lparr>subject := Some (flag @ ascii ''aGVsbG8gA29ybGQ='')\<rparr>)"
    using c5 by (simp add: ascii_def)
  note c6 = t [THEN conjunct2, THEN conjunct2, THEN conjunct2, THEN conjunct2, THEN conjunct2,
      THEN conjunct1, THEN mp, OF h4]
  note c7 = t [THEN conjunct2, THEN conjunct2, THEN conjunct2, THEN conjunct2, THEN conjunct2,
      THEN conjunct2, THEN conjunct1, THEN mp, OF h5, THEN conjunct1]
  note c8 = t [THEN conjunct2, THEN conjunct2, THEN conjunct2, THEN conjunct2, THEN conjunct2,
      THEN conjunct2, THEN conjunct2, THEN mp, OF h6]
  note c8i = c8 [THEN conjunct1, THEN mp, OF h7]
  note c8a = c8 [THEN conjunct2, THEN mp, OF h8]
  from c1 c3 c4' c5' c6 c7 c8i [THEN conjunct1] c8i [THEN conjunct2, THEN conjunct1]
    c8a [THEN conjunct2, THEN conjunct1]
  show ?thesis by (intro conjI)
qed

lemma smallArtifact_written:
  "encodeAudio demoPlatform (demoWav 48) (ascii ''a'') None = (smallArtifact, Inr smallArtifact)"
  "smallArtifact = audioWrite (frame (ascii ''a'')) 20 (demoWav 48)"
proof -
  have small: "16 * length (ascii ''a'') < (2 :: nat) ^ 32" by (simp add: ascii_def)
  have fits: "length (frame (ascii ''a'')) \<le> 48"
    using frame_parts(3) [OF small] by (simp add: ascii_def)
  have found: "findDataChunk (demoWav 48) 12 = Inr (Some (20, 48))"
    by (simp add: findDataChunk_demoWav)
  note enc = encodeAudio_success [OF found finalMessageFor_None fits, where P = demoPlatform]
  show "smallArtifact = audioWrite (frame (ascii ''a'')) 20 (demoWav 48)"
    by (simp add: smallArtifact_def enc)
  then show "encodeAudio demoPlatform (demoWav 48) (ascii ''a'') None = (smallArtifact, Inr smallArtifact)"
    by (simp add: enc)
qed

text \<open>
  C5 as stated fails: the artifact \<open>smallArtifact\<close> is a successfully encoded audio
  file that decodes to its message, and \<open>corruptAudio\<close> returns it unchanged, since its
  \<open>data\<close> chunk has 48 bytes and the guard asks for more than 50.
\<close>

theorem corrupt_leaves_small_artifact_unchanged:
  "encodeAudio demoPlatform (demoWav 48) (ascii ''a'') None = (smallArtifact, Inr smallArtifact) \<and>
   decodeAudio demoPlatform smallArtifact None = Inr (ascii ''a'') \<and>
   corruptAudio smallArtifact = Inr smallArtifact"
proof -
  have small: "16 * length (ascii ''a'') < (2 :: nat) ^ 32" by (simp add: ascii_def)
  have fits: "length (frame (ascii ''a'')) \<le> 48"
    using frame_parts(3) [OF small] by (simp add: ascii_def)
  have found: "findDataChunk (demoWav 48) 12 = Inr (Some (20, 48))"
    by (simp add: findDataChunk_demoWav)
  have found': "findDataChunk smallArtifact 12 = Inr (Some (20, 48))"
    unfolding smallArtifact_written(2) by (rule findDataChunk_audioWrite [OF found fits])
  have "decodeAudio demoPlatform smallArtifact None = decryptIfPassword demoPlatform (ascii ''a'') None"
    unfolding smallArtifact_written(2)
    by (rule decodeAudio_encoded [OF found _ small]) (simp_all add: ascii_def)
  then have dec: "decodeAudio demoPlatform smallArtifact None = Inr (ascii ''a'')"
    by (simp add: decryptIfPassword_def)
  have "corruptAudio smallArtifact = Inr smallArtifact"
    by (simp add: corruptAudio_found [OF found'])
  with smallArtifact_written(1) dec show ?thesis by (intro conjI)
qed

section \<open>Round trip\<close>

lemma encrypt_then_decrypt:
  assumes "platformRoundTrip P message p"
  shows "\<exists>envelope. encryptMessage P message p = Inr envelope \<and>
           decryptMessage P envelope p = Inr message"
proof -
  let ?salt = "getRandomValues P SALT_LENGTH"
  let ?iv = "getRandomValues P IV_LENGTH"
  from assms obtain passwordKey where pk: "importKey P (textEncode P p) = Inr passwordKey"
    by (cases "importKey P (textEncode P p)") (simp_all add: platformRoundTrip_def Let_def)
  from assms pk obtain aesKey where key: "pbkdf2 P passwordKey ?salt ITERATIONS = Inr aesKey"
    by (cases "pbkdf2 P passwordKey ?salt ITERATIONS") (simp_all add: platformRoundTrip_def Let_def)
  from assms pk key obtain d where enc: "aesGcmEncrypt P aesKey ?iv (textEncode P message) = Inr d"
    by (cases "aesGcmEncrypt P aesKey ?iv (textEncode P message)")
       (simp_all add: platformRoundTrip_def Let_def)
  from assms pk key enc
  have dec: "aesGcmDecrypt P aesKey ?iv d = Inr (textEncode P message)"
    and codec: "textDecode P (textEncode P message) = message"
    and parse: "jsonParse P (stringifyBundle ?salt ?iv d) = Some (bundleJson ?salt ?iv d)"
    by (simp_all add: platformRoundTrip_def Let_def)
  have "encryptMessage P message p = Inr (stringifyBundle ?salt ?iv d)"
    using pk key enc
    by (simp add: encryptMessage_def encryptAttempt_def Let_def bindE_def getPasswordKey_def
        deriveKey_def)
  moreover have "decryptAttempt P (stringifyBundle ?salt ?iv d) p = Inr message"
    using pk key dec codec
    by (simp add: decryptAttempt_bundle [OF parse] bindE_def getPasswordKey_def deriveKey_def)
  then have "decryptMessage P (stringifyBundle ?salt ?iv d) p = Inr message"
    by (simp add: decryptMessage_def)
  ultimately show ?thesis by blast
qed

lemma decryptIfPassword_finalMessage:
  assumes fm: "finalMessageFor P message password = Inr fm"
    and contract: "case truthyPassword password of None \<Rightarrow> True | Some p \<Rightarrow> platformRoundTrip P message p"
  shows "decryptIfPassword P fm password = Inr message"
proof (cases "truthyPassword password")
  case None
  with fm show ?thesis by (simp add: finalMessageFor_def decryptIfPassword_def)
next
  case (Some p)
  with contract have "platformRoundTrip P message p" by simp
  from encrypt_then_decrypt [OF this] Some fm show ?thesis
    by (auto simp: finalMessageFor_def decryptIfPassword_def)
qed

lemma finalMessage_latin1:
  assumes fm: "finalMessageFor P message password = Inr fm"
    and plain: "truthyPassword password = None \<longrightarrow> \<not> list_ex (\<lambda>c. 255 < unat c) message"
  shows "\<not> list_ex (\<lambda>c. 255 < unat c) fm"
proof (cases "truthyPassword password")
  case None
  with fm plain show ?thesis by (simp add: finalMessageFor_def)
next
  case (Some p)
  with fm have "encryptMessage P message p = Inr fm" by (simp add: finalMessageFor_def)
  from encryptMessage_envelope [OF this] show ?thesis
    by (auto simp: stringifyBundle_latin1)
qed

lemma encodePdf_finalMessage:
  assumes "finalMessageFor P message password = Inr fm"
  shows "encodePdf P pdfDoc message password =
     bindE (btoa fm) (\<lambda>finalMessage. Inr (pdfDoc\<lparr>subject := Some (flag @ finalMessage)\<rparr>))"
  using assms
  by (cases "truthyPassword password") (simp_all add: encodePdf_def finalMessageFor_def bindE_def)

lemma pdf_round_trip:
  assumes fm: "finalMessageFor P message password = Inr fm"
    and contract: "case truthyPassword password of None \<Rightarrow> True | Some p \<Rightarrow> platformRoundTrip P message p"
    and plain: "truthyPassword password = None \<longrightarrow> \<not> list_ex (\<lambda>c. 255 < unat c) message"
  shows "\<exists>stored. encodePdf P pdfDoc message password = Inr stored \<and>
           decodePdf P stored password = Inr message"
proof -
  let ?b64 = "ascii (map base64Char (encodeGroups (map unat fm)))"
  let ?stored = "pdfDoc\<lparr>subject := Some (flag @ ?b64)\<rparr>"
  note latin = finalMessage_latin1 [OF fm plain]
  have "encodePdf P pdfDoc message password = Inr ?stored"
    by (simp add: encodePdf_finalMessage [OF fm] atob_btoa(1) [OF latin] bindE_def)
  moreover have "subject ?stored = Some (flag @ ?b64)" by simp
  then have "decodePdf P ?stored password = decryptIfPassword P fm password"
    by (simp add: decodePdf_prefixed atob_btoa(2) [OF latin])
  then have "decodePdf P ?stored password = Inr message"
    by (simp only: decryptIfPassword_finalMessage [OF fm contract])
  ultimately show ?thesis by blast
qed

lemma image_round_trip:
  assumes fm: "finalMessageFor P message password = Inr fm"
    and contract: "case truthyPassword password of None \<Rightarrow> True | Some p \<Rightarrow> platformRoundTrip P message p"
    and ne: "fm \<noteq> []" and small: "16 * length fm < 2 ^ 32"
    and cap: "4 * (32 + 16 * length fm) \<le> length data * 3"
  shows "decodeImage P (fst (encodeImage P data message password)) password = Inr message"
proof -
  have "4 * length (frame fm) \<le> length data * 3"
    using cap frame_parts(3) [OF small] by simp
  then have "fst (encodeImage P data message password) = encodeLoop (frame fm) data 0 0"
    by (simp add: encodeImage_success [OF fm])
  then show ?thesis
    by (simp only: decodeImage_encoded [OF ne small cap]
        decryptIfPassword_finalMessage [OF fm contract])
qed

lemma audio_round_trip:
  assumes fm: "finalMessageFor P message password = Inr fm"
    and contract: "case truthyPassword password of None \<Rightarrow> True | Some p \<Rightarrow> platformRoundTrip P message p"
    and ne: "fm \<noteq> []" and small: "16 * length fm < 2 ^ 32"
    and found: "findDataChunk buf 12 = Inr (Some (offset, chunkSize))"
    and cap: "32 + 16 * length fm \<le> chunkSize"
  shows "decodeAudio P (fst (encodeAudio P buf message password)) password = Inr message"
proof -
  have "length (frame fm) \<le> chunkSize"
    using cap frame_parts(3) [OF small] by simp
  then have "fst (encodeAudio P buf message password) = audioWrite (frame fm) offset buf"
    by (simp add: encodeAudio_success [OF found fm])
  then show ?thesis
    by (simp only: decodeAudio_encoded [OF found ne small cap]
        decryptIfPassword_finalMessage [OF fm contract])
qed

lemma stringifyBundle_nonempty: "stringifyBundle s iv d \<noteq> []"
  by (simp add: stringifyBundle_def ascii_def)

lemma finalMessage_nonempty:
  assumes fm: "finalMessageFor P message password = Inr fm"
    and plain: "truthyPassword password = None \<longrightarrow> message \<noteq> []"
  shows "fm \<noteq> []"
proof (cases "truthyPassword password")
  case None
  with fm plain show ?thesis by (simp add: finalMessageFor_def)
next
  case (Some p)
  with fm have "encryptMessage P message p = Inr fm" by (simp add: finalMessageFor_def)
  from encryptMessage_envelope [OF this] show ?thesis
    by (auto simp: stringifyBundle_nonempty)
qed

text \<open>
  C1 as amended. Let \<open>fm\<close> be the text that is embedded (the message, or its envelope
  when a password is given), and let the platform keep its contract when a password is
  given (\<open>platformRoundTrip\<close>). Then decoding what was encoded returns the message: for
  an image and for an audio buffer when the frame of \<open>fm\<close> fits the capacity and,
  without a password, the message is not empty; for a PDF document when, without a
  password, every character of the message is at most U+00FF.
\<close>

theorem round_trip:
  assumes "finalMessageFor P message password = Inr fm"
    and "case truthyPassword password of None \<Rightarrow> True | Some p \<Rightarrow> platformRoundTrip P message p"
  shows
    "((truthyPassword password = None \<longrightarrow> message \<noteq> []) \<and> 16 * length fm < 2 ^ 32 \<and>
      4 * (32 + 16 * length fm) \<le> length data * 3 \<longrightarrow>
        decodeImage P (fst (encodeImage P data message password)) password = Inr message) \<and>
     ((truthyPassword password = None \<longrightarrow> message \<noteq> []) \<and> 16 * length fm < 2 ^ 32 \<and>
      findDataChunk buf 12 = Inr (Some (offset, chunkSize)) \<and> 32 + 16 * length fm \<le> chunkSize \<longrightarrow>
        decodeAudio P (fst (encodeAudio P buf message password)) password = Inr message) \<and>
     ((truthyPassword password = None \<longrightarrow> \<not> list_ex (\<lambda>c. 255 < unat c) message) \<longrightarrow>
        (\<exists>stored. encodePdf P pdfDoc message password = Inr stored \<and>
                  decodePdf P stored password = Inr message))"
proof (intro conjI impI; (elim conjE)?)
  assume "truthyPassword password = None \<longrightarrow> message \<noteq> []"
  then have "fm \<noteq> []" by (rule finalMessage_nonempty [OF assms(1)])
  moreover assume "16 * length fm < 2 ^ 32" "4 * (32 + 16 * length fm) \<le> length data * 3"
  ultimately show "decodeImage P (fst (encodeImage P data message password)) password = Inr message"
    using assms by (intro image_round_trip)
next
  assume "truthyPassword password = None \<longrightarrow> message \<noteq> []"
  then have "fm \<noteq> []" by (rule finalMessage_nonempty [OF assms(1)])
  moreover assume "16 * length fm < 2 ^ 32"
    "findDataChunk buf 12 = Inr (Some (offset, chunkSize))" "32 + 16 * length fm \<le> chunkSize"
  ultimately show "decodeAudio P (fst (encodeAudio P buf message password)) password = Inr message"
    using assms by (intro audio_round_trip)
next
  assume "truthyPassword password = None \<longrightarrow> \<not> list_ex (\<lambda>c. 255 < unat c) message"
  with assms show "\<exists>stored. encodePdf P pdfDoc message password = Inr stored \<and>
      decodePdf P stored password = Inr message"
    by (rule pdf_round_trip)
qed

lemma demo_random:
  "getRandomValues demoPlatform SALT_LENGTH = demoSalt"
  "getRandomValues demoPlatform IV_LENGTH = demoIv"
proof -
  have "Suc 16 = 17" "Suc 12 = 13" by simp_all
  then show "getRandomValues demoPlatform SALT_LENGTH = demoSalt"
    "getRandomValues demoPlatform IV_LENGTH = demoIv"
    by (simp_all only: demoPlatform_def SALT_LENGTH_def IV_LENGTH_def demoSalt_def demoIv_def
        platform.simps)
qed

lemma demo_key:
  "importKey demoPlatform (textEncode demoPlatform demoPassword) = Inr (map ucast demoPassword)"
  "pbkdf2 demoPlatform (map ucast demoPassword) demoSalt ITERATIONS = Inr demoKey"
  by (simp_all add: demoPlatform_def demoKey_def)

lemma length_demoTag: "length (demoTag k iv) = 16"
  by (simp add: demoTag_def)

lemma demo_cipher:
  "aesGcmEncrypt demoPlatform demoKey demoIv (textEncode demoPlatform hello) = Inr demoCipher"
  "aesGcmDecrypt demoPlatform demoKey demoIv demoCipher = Inr (textEncode demoPlatform hello)"
  by (simp_all add: demoPlatform_def demoCipher_def length_demoTag)

lemma demo_codec: "textDecode demoPlatform (textEncode demoPlatform hello) = hello"
  by (simp add: demoPlatform_def hello_chars)

lemma demo_contract: "platformRoundTrip demoPlatform hello demoPassword"
  unfolding platformRoundTrip_def Let_def demo_random demo_key sum.case demo_cipher
  by (simp add: demo_codec jsonParse_demoEnvelope [unfolded demoEnvelope_def])

lemma demo_finalMessage: "finalMessageFor demoPlatform hello (Some demoPassword) = Inr demoEnvelope"
  unfolding finalMessageFor_def truthyPassword_demo option.case encryptMessage_def
    encryptAttempt_def Let_def getPasswordKey_def deriveKey_def demo_random
  by (simp add: bindE_def demo_key demo_cipher demoEnvelope_def)

lemma length_demoEnvelope: "length demoEnvelope = 147"
  by code_simp

theorem round_trip_witness:
  "decodeImage demoPlatform
     (fst (encodeImage demoPlatform (replicate 3200 0) hello (Some demoPassword)))
     (Some demoPassword) = Inr hello \<and>
   (\<exists>stored. encodePdf demoPlatform demoPdf hello (Some demoPassword) = Inr stored \<and>
             decodePdf demoPlatform stored (Some demoPassword) = Inr hello) \<and>
   decodeImage demoPlatform (fst (encodeImage demoPlatform (replicate 200 0) hello None)) None =
     Inr hello \<and>
   decodeAudio demoPlatform (fst (encodeAudio demoPlatform (demoWav 200) hello None)) None =
     Inr hello \<and>
   (\<exists>stored. encodePdf demoPlatform demoPdf hello None = Inr stored \<and>
             decodePdf demoPlatform stored None = Inr hello)"
proof -
  have contract: "case truthyPassword (Some demoPassword) of None \<Rightarrow> True
      | Some p \<Rightarrow> platformRoundTrip demoPlatform hello p"
    by (simp add: truthyPassword_demo demo_contract)
  note secret = round_trip [OF demo_finalMessage contract, where data = "replicate 3200 0"
      and pdfDoc = demoPdf]
  have capS: "(truthyPassword (Some demoPassword) = None \<longrightarrow> hello \<noteq> []) \<and>
      16 * length demoEnvelope < (2 :: nat) ^ 32 \<and>
      4 * (32 + 16 * length demoEnvelope) \<le> length (replicate 3200 (0 :: byte)) * 3"
    by (simp add: length_demoEnvelope hello_chars)
  have pdfS: "truthyPassword (Some demoPassword) = None \<longrightarrow> \<not> list_ex (\<lambda>c. 255 < unat c) hello"
    by (simp only: hello_latin1 simp_thms)
  have plainContract: "case truthyPassword None of None \<Rightarrow> True
      | Some p \<Rightarrow> platformRoundTrip demoPlatform hello p"
    by simp
  note plain = round_trip [OF finalMessageFor_None plainContract, where data = "replicate 200 0"
      and buf = "demoWav 200" and offset = 20 and chunkSize = 200 and pdfDoc = demoPdf]
  have capP: "(truthyPassword None = None \<longrightarrow> hello \<noteq> []) \<and> 16 * length hello < (2 :: nat) ^ 32 \<and>
      4 * (32 + 16 * length hello) \<le> length (replicate 200 (0 :: byte)) * 3"
    by (simp add: hello_chars)
  have capA: "(truthyPassword None = None \<longrightarrow> hello \<noteq> []) \<and> 16 * length hello < (2 :: nat) ^ 32 \<and>
      findDataChunk (demoWav 200) 12 = Inr (Some (20, 200)) \<and> 32 + 16 * length hello \<le> 200"
    by (simp add: hello_chars findDataChunk_demoWav)
  have pdfP: "truthyPassword None = None \<longrightarrow> \<not> list_ex (\<lambda>c. 255 < unat c) hello"
    by (simp add: hello_latin1)
  from secret [THEN conjunct1, THEN mp, OF capS]
    secret [THEN conjunct2, THEN conjunct2, THEN mp, OF pdfS]
    plain [THEN conjunct1, THEN mp, OF capP]
    plain [THEN conjunct2, THEN conjunct1, THEN mp, OF capA]
    plain [THEN conjunct2, THEN conjunct2, THEN mp, OF pdfP]
  show ?thesis by (intro conjI)
qed

text \<open>
  C1 as stated fails. An image of 64 channel bytes and a WAV buffer with a 48-byte
  \<open>data\<close> chunk have room for the 32-bit frame of the empty message, and it is encoded;
  decoding the result raises the no-header error, whose guard rejects the length 0. A
  PDF carrier and the one-character message U+0100 without a password: \<open>encodePdf\<close>
  throws.
\<close>

theorem round_trip_fails_for_empty_and_wide_messages:
  "snd (encodeImage demoPlatform (replicate 64 0) [] None) =
     Inr (fst (encodeImage demoPlatform (replicate 64 0) [] None)) \<and>
   decodeImage demoPlatform (fst (encodeImage demoPlatform (replicate 64 0) [] None)) None =
     Inl (Error noValidHeaderMsg) \<and>
   snd (encodeAudio demoPlatform (demoWav 48) [] None) =
     Inr (fst (encodeAudio demoPlatform (demoWav 48) [] None)) \<and>
   decodeAudio demoPlatform (fst (encodeAudio demoPlatform (demoWav 48) [] None)) None =
     Inl (Error noHiddenDataMsg) \<and>
   encodePdf demoPlatform demoPdf [0x100] None = Inl (DOMException ''InvalidCharacterError'')"
proof -
  have frame: "frame [] = replicate 32 False"
    by code_simp
  have image: "encodeImage demoPlatform (replicate 64 0) [] None =
      (replicate 64 0, Inr (replicate 64 0))"
    unfolding encodeImage_def finalMessageFor_None sum.case Let_def frame by code_simp
  have imageDecode: "decodeImage demoPlatform (replicate 64 0) None = Inl (Error noValidHeaderMsg)"
    by code_simp
  have found: "findDataChunk (demoWav 48) 12 = Inr (Some (20, 48))"
    by (simp add: findDataChunk_demoWav)
  have written: "audioWrite (replicate 32 False) 20 (demoWav 48) = demoWav 48"
    by code_simp
  have audio: "encodeAudio demoPlatform (demoWav 48) [] None = (demoWav 48, Inr (demoWav 48))"
    using encodeAudio_success [OF found finalMessageFor_None [of demoPlatform "[]"]]
    by (simp add: frame written)
  have header: "map (sampleBit (demoWav 48) 20 48) [0..<32] = replicate 32 False"
    by code_simp
  have zero: "parseInt2 (replicate 32 False) = Some 0"
    by code_simp
  have audioDecode: "decodeAudio demoPlatform (demoWav 48) None = Inl (Error noHiddenDataMsg)"
    unfolding decodeAudio_def found sum.case option.case prod.case Let_def header zero
    by simp
  have pdf: "encodePdf demoPlatform demoPdf [0x100] None = Inl (DOMException ''InvalidCharacterError'')"
    by (simp add: encodePdf_plain btoa_rejects)
  show ?thesis
    by (simp add: image imageDecode audio audioDecode pdf)
qed

end
